theory Spec2Isabelle
  imports Main "HOL-Library.Word" "HOL-Library.Multiset"
begin

section \<open>Key and content generation (main.go, lines 177-200)\<close>

type_synonym byte = "8 word"

text \<open>
  \<^verbatim>\<open>make([]byte, n)\<close> gives \<open>n\<close> zero bytes, and panics (makeslice: len out of range)
  when \<open>n\<close> is negative or above the runtime's allocation limit \<open>maxAlloc\<close>. The limit is
  \<open>2 ^ 48\<close> bytes on the 64-bit platforms with 48 address bits (linux/amd64 among them),
  where \<^verbatim>\<open>int\<close> has 64 bits; the model is of these platforms. Memory below the limit is not
  bounded in the model. \<^verbatim>\<open>rand.Read(b)\<close> overwrites \<open>b\<close> with the bytes the random source
  delivers; both call sites discard its results, so the model keeps only the buffer as the
  call leaves it. The delivered bytes are an input of the model: a list shorter than the
  buffer leaves the tail of the buffer as it was.
\<close>

definition maxAlloc :: int where
  "maxAlloc = 2 ^ 48"

definition make_bytes :: "nat \<Rightarrow> byte list" where
  "make_bytes n = replicate n 0"

definition rand_Read :: "byte list \<Rightarrow> byte list \<Rightarrow> byte list" where
  "rand_Read delivered b = take (length b) delivered @ drop (length delivered) b"

subsection \<open>generateRandomString\<close>

definition charset :: string where
  "charset = ''abcdefghijklmnopqrstuvwxyzABCDEFGHIJKLMNOPQRSTUVWXYZ0123456789''"

text \<open>A Go string is a sequence of bytes: the conversions between a byte and a character.\<close>

definition byte_of_char :: "char \<Rightarrow> byte" where
  "byte_of_char c = of_nat (of_char c)"

definition char_of_byte :: "byte \<Rightarrow> char" where
  "char_of_byte x = char_of (unat x)"

text \<open>The body of the loop: \<^verbatim>\<open>b[i] = charset[b[i]%byte(len(charset))]\<close>.\<close>

definition charset_at :: "byte \<Rightarrow> byte" where
  "charset_at x = byte_of_char (charset ! unat (x mod of_nat (length charset)))"

function charset_loop :: "nat \<Rightarrow> nat \<Rightarrow> byte list \<Rightarrow> byte list" where
  "charset_loop i n b =
     (if i < n then charset_loop (i + 1) n (b[i := charset_at (b ! i)]) else b)"
  by pat_completeness auto
termination
  by (relation "measure (\<lambda>(i, n, b). n - i)") auto

text \<open>
  The length is a Go \<^verbatim>\<open>int\<close>; \<^verbatim>\<open>make\<close> panics on a negative one and on one above
  \<open>maxAlloc\<close>, which is the result \<open>None\<close>. \<^verbatim>\<open>string(b)\<close> reads the bytes as characters.
\<close>

definition generateRandomString :: "int \<Rightarrow> byte list \<Rightarrow> string option" where
  "generateRandomString len delivered =
     (if len < 0 \<or> maxAlloc < len then None
      else let b = rand_Read delivered (make_bytes (nat len))
           in Some (map char_of_byte (charset_loop 0 (nat len) b)))"

subsection \<open>generateObjectKey\<close>

text \<open>
  \<^verbatim>\<open>time.Now()\<close> is an instant together with the process's local time zone. The instant
  is counted in nanoseconds since the Unix epoch; the zone is the offset, in seconds east of
  UTC, that the local zone has at a Unix second. \<^verbatim>\<open>Format\<close> renders the wall clock of
  that zone.
\<close>

record time =
  unix_nano :: int
  zone_offset :: int

definition unix_sec :: "time \<Rightarrow> int" where
  "unix_sec t = unix_nano t div 1000000000"

definition UTC :: "time \<Rightarrow> time" where
  "UTC t = t\<lparr>zone_offset := 0\<rparr>"

text \<open>The civil date of a day number counted from 1970-01-01 (proleptic Gregorian).\<close>

definition civil_from_days :: "int \<Rightarrow> int \<times> int \<times> int" where
  "civil_from_days z0 =
     (let z = z0 + 719468;
          era = z div 146097;
          doe = z - era * 146097;
          yoe = (doe - doe div 1460 + doe div 36524 - doe div 146096) div 365;
          y = yoe + era * 400;
          doy = doe - (365 * yoe + yoe div 4 - yoe div 100);
          mp = (5 * doy + 2) div 153;
          d = doy - (153 * mp + 2) div 5 + 1;
          m = (if mp < 10 then mp + 3 else mp - 9)
      in (if m \<le> 2 then y + 1 else y, m, d))"

text \<open>\<^verbatim>\<open>appendInt(b, x, width)\<close> of package time: decimal, zero-padded to the width.\<close>

definition digit_char :: "nat \<Rightarrow> char" where
  "digit_char d = char_of (48 + d)"

fun decimal :: "nat \<Rightarrow> string" where
  "decimal n = (if n < 10 then [digit_char n] else decimal (n div 10) @ [digit_char (n mod 10)])"

definition appendInt :: "int \<Rightarrow> nat \<Rightarrow> string" where
  "appendInt x width =
     (let ds = decimal (nat \<bar>x\<bar>)
      in (if x < 0 then ''-'' else '''') @ replicate (width - length ds) (CHR ''0'') @ ds)"

text \<open>\<^verbatim>\<open>t.Format("20060102T150405")\<close>: year, month, day, the letter T, hour, minute, second.\<close>

definition Format_20060102T150405 :: "time \<Rightarrow> string" where
  "Format_20060102T150405 t =
     (let wall = unix_sec t + zone_offset t;
          (year, month, day) = civil_from_days (wall div 86400);
          secs = wall mod 86400
      in appendInt year 4 @ appendInt month 2 @ appendInt day 2 @ ''T''
         @ appendInt (secs div 3600) 2 @ appendInt (secs mod 3600 div 60) 2
         @ appendInt (secs mod 60) 2)"

text \<open>\<^verbatim>\<open>fmt.Sprintf("%x", hashBytes)\<close>: two lowercase hexadecimal digits for each byte.\<close>

definition hex_digit :: "nat \<Rightarrow> char" where
  "hex_digit d = ''0123456789abcdef'' ! d"

definition hex_byte :: "byte \<Rightarrow> string" where
  "hex_byte x = [hex_digit (unat x div 16), hex_digit (unat x mod 16)]"

definition Sprintf_x :: "byte list \<Rightarrow> string" where
  "Sprintf_x bs = concat (map hex_byte bs)"

definition generateObjectKey :: "time \<Rightarrow> byte list \<Rightarrow> string" where
  "generateObjectKey tnow delivered =
     (let timestamp = Format_20060102T150405 tnow;
          hashBytes = rand_Read delivered (make_bytes 16);
          randomHash = Sprintf_x hashBytes
      in timestamp @ ''/'' @ randomHash)"


section \<open>The request handler (main.go, lines 78-175)\<close>

subsection \<open>Requests, responses and the environment\<close>

record Payload =
  Number :: int

record ResponsePayload =
  ObjectsWritten :: int
  TimeTaken :: int
  Errors :: "string list"

text \<open>
  What the handler writes to the \<^verbatim>\<open>http.ResponseWriter\<close>: a status and either the text of
  \<^verbatim>\<open>http.Error\<close> or the encoded \<^verbatim>\<open>ResponsePayload\<close>. \<open>TimeTaken\<close> is the duration in
  nanoseconds; its rendering by \<^verbatim>\<open>Duration.String\<close> is not modelled.
\<close>

datatype body = Text string | Json ResponsePayload

record http_response =
  status :: nat
  body :: body

text \<open>
  A request is its method and the result of
  \<^verbatim>\<open>json.NewDecoder(r.Body).Decode(&payload)\<close>: the text of the error, or the payload.
\<close>

record request =
  Method :: string
  Decode :: "string + Payload"

text \<open>
  What the storage backend and the random source answer to the goroutine started in the
  \<open>k\<close>-th iteration: the bytes delivered to the two \<^verbatim>\<open>rand.Read\<close> calls, the error of
  \<^verbatim>\<open>io.WriteString\<close> and the error of \<^verbatim>\<open>obj.Close\<close> (\<open>None\<close> is \<^verbatim>\<open>nil\<close>; an error
  is its \<^verbatim>\<open>%v\<close> text). Each goroutine makes each of these calls at most once.
\<close>

record backend =
  key_bytes :: "byte list"
  content_bytes :: "byte list"
  WriteString_err :: "string option"
  Close_err :: "string option"

text \<open>
  The environment of one call of the handler: the request, the bucket name, the offset of
  the local time zone at a Unix second, the answers of the backend, and \<open>chan_limit\<close>, the
  largest capacity for which \<^verbatim>\<open>make(chan error, n)\<close> does not panic (makechan: size out of
  range). The runtime derives that limit from \<open>maxAlloc\<close>, the size of an \<^verbatim>\<open>error\<close> value
  and the size of its channel header, which differs between Go versions; it is a little
  under \<open>2 ^ 44\<close> on the 64-bit platforms.
\<close>

record env =
  r :: request
  bucketName :: string
  local_zone :: "int \<Rightarrow> int"
  backend :: "nat \<Rightarrow> backend"
  chan_limit :: int

subsection \<open>Validation and response (lines 82-99 and 159-171)\<close>

definition validate :: "request \<Rightarrow> http_response + Payload" where
  "validate rq =
     (if Method rq \<noteq> ''POST''
      then Inl \<lparr>status = 405, body = Text ''Only POST requests are accepted''\<rparr>
      else case Decode rq of
        Inl err \<Rightarrow> Inl \<lparr>status = 400, body = Text (''Invalid JSON payload: '' @ err)\<rparr>
      | Inr p \<Rightarrow>
          if Number p \<le> 0
          then Inl \<lparr>status = 400,
                    body = Text ''The 'number' value must be a positive integer''\<rparr>
          else Inr p)"

definition respond :: "Payload \<Rightarrow> int \<Rightarrow> string list \<Rightarrow> http_response" where
  "respond p tt msgs =
     (let response = \<lparr>ObjectsWritten = Number p - int (length msgs), TimeTaken = tt,
                      Errors = msgs\<rparr>
      in \<lparr>status = (if length msgs > 0 then 500 else 200), body = Json response\<rparr>)"

subsection \<open>The goroutines\<close>

text \<open>
  The handler's goroutine and the goroutines it starts run interleaved. Each has a program
  counter; a step of the program is one atomic step of one goroutine, and a goroutine that
  is blocked (a send on a full channel, \<^verbatim>\<open>wg.Wait\<close> on a positive counter, a receive
  from an empty open channel) has no step. The goroutines share the channel, the wait
  group and values that none of them writes, so the steps are cut at the operations on
  the channel and the wait group and at the calls of the backend.

  The handler is at \<open>Validate\<close> before line 82, at \<open>Setup\<close> before line 101, at
  \<open>Dispatch\<close> at the head of the loop of line 116 (one step is the test, \<^verbatim>\<open>wg.Add(1)\<close>, the
  \<^verbatim>\<open>go\<close> statement and \<^verbatim>\<open>i++\<close>), at \<open>Wait\<close> before line 146, at \<open>CloseErrs\<close> before
  line 147, at \<open>Since\<close> before line 150, at \<open>RangeErrs\<close> at the head of the loop of line
  154 and at \<open>Respond\<close> before line 159. A goroutine is at \<open>Generate\<close> before line 122, at
  \<open>WriteString\<close> before line 131, at \<open>SendWriteErr\<close> before the send of line 132, at
  \<open>BestEffortClose\<close> before line 133, at \<open>CloseWriter\<close> before line 138, at
  \<open>SendCloseErr\<close> before the send of line 139, at \<open>LogSuccess\<close> before line 142 and at
  \<open>WgDone\<close> before the deferred \<^verbatim>\<open>wg.Done()\<close> of line 119.
\<close>

datatype main_pc =
  Validate | Setup | Dispatch | Wait | CloseErrs | Since | RangeErrs | Respond | Returned

datatype task_pc =
  Generate | WriteString | SendWriteErr string | BestEffortClose | CloseWriter
  | SendCloseErr string | LogSuccess | WgDone | Finished

text \<open>
  The locals of a started goroutine. \<open>t_sent\<close>, \<open>t_closes\<close> and \<open>t_at\<close> are history
  variables: what it has sent on \<open>errs\<close>, how often it has called \<^verbatim>\<open>obj.Close\<close>, and the
  clock at its latest step.
\<close>

record task =
  t_pc :: task_pc
  objectKey :: string
  randomString :: string
  t_sent :: "string list"
  t_closes :: nat
  t_at :: int

text \<open>
  What the handler and its goroutines do to the world outside, in the order in which it
  happens: a log line, the bucket handle, the context with its deadline, the start of the
  \<open>k\<close>-th goroutine, a read of so many bytes from the random source, a new writer for a
  key, a write to it and a close of it.
\<close>

datatype effect =
  E_Log string | E_Bucket string | E_Context | E_Go nat | E_Entropy nat
  | E_NewWriter string | E_Write string | E_Close string

text \<open>
  The state of one call of \<^verbatim>\<open>handleRequest\<close>: the handler's program counter and locals
  (\<open>w\<close> is what it has written to the response writer), the clock, the counter of the
  wait group, the channel \<open>errs\<close> (capacity, buffer, closed or not), the goroutines started
  so far, the effects so far, and whether some goroutine has panicked. \<open>collected_at\<close> is
  a history variable: the clock at each receive from \<open>errs\<close>.

  The integers of the handler are mathematical integers: the count is positive, the loop
  counter runs from 0 to the count and the subtraction in the response stays between 0 and
  the count (the number of messages never exceeds the number of goroutines), so no
  operation of the handler wraps around. \<^verbatim>\<open>make(chan error, n)\<close> panics above \<open>chan_limit\<close>;
  below it, and for the goroutines, memory is not bounded in the model.
\<close>

record state =
  mpc :: main_pc
  payload :: Payload
  startTime :: int
  loop_i :: int
  timeTaken :: int
  errorMessages :: "string list"
  collected_at :: "int list"
  w :: "http_response option"
  clock :: int
  wg :: int
  errs_cap :: nat
  errs :: "string list"
  errs_closed :: bool
  tasks :: "task list"
  effects :: "effect list"
  panicked :: bool

definition init :: "int \<Rightarrow> state" where
  "init t0 = \<lparr>mpc = Validate, payload = \<lparr>Number = 0\<rparr>, startTime = 0, loop_i = 0,
     timeTaken = 0, errorMessages = [], collected_at = [], w = None, clock = t0, wg = 0,
     errs_cap = 0,
     errs = [], errs_closed = False, tasks = [], effects = [], panicked = False\<rparr>"

definition new_task :: "int \<Rightarrow> task" where
  "new_task t = \<lparr>t_pc = Generate, objectKey = [], randomString = [], t_sent = [],
     t_closes = 0, t_at = t\<rparr>"

definition msg_write :: "string \<Rightarrow> string \<Rightarrow> string" where
  "msg_write key err = ''failed to write to GCS object '' @ key @ '': '' @ err"

definition msg_close :: "string \<Rightarrow> string \<Rightarrow> string" where
  "msg_close key err = ''failed to close GCS object writer for '' @ key @ '': '' @ err"

text \<open>The two lines the handler logs; \<^verbatim>\<open>%d\<close> is the decimal numeral with its sign.\<close>

definition log_received :: "int \<Rightarrow> string \<Rightarrow> string" where
  "log_received n bucket =
     ''Received request to create '' @ appendInt n 0 @ '' objects in bucket ''
       @ [CHR 0x27] @ bucket @ [CHR 0x27]"

definition log_created :: "string \<Rightarrow> string" where
  "log_created key = ''Successfully created object: '' @ key"

text \<open>
  The handler's goroutine. In \<open>Setup\<close> the log line, the bucket handle, the context and
  the clock reading of lines 101-111 come before \<^verbatim>\<open>make(chan error, payload.Number)\<close> of
  line 114, which panics for a count above \<open>chan_limit\<close>: the handler then writes no
  response (net/http recovers the panic and closes the connection).
\<close>

definition main_step :: "env \<Rightarrow> state \<Rightarrow> state option" where
  "main_step e s =
     (case mpc s of
        Validate \<Rightarrow>
          (case validate (r e) of
             Inl resp \<Rightarrow> Some (s\<lparr>w := Some resp, mpc := Returned\<rparr>)
           | Inr p \<Rightarrow> Some (s\<lparr>payload := p, mpc := Setup\<rparr>))
      | Setup \<Rightarrow>
          if chan_limit e < Number (payload s)
          then Some (s\<lparr>effects := effects s @ [E_Log (log_received (Number (payload s)) (bucketName e)),
                                                 E_Bucket (bucketName e), E_Context],
                       startTime := clock s, wg := 0, panicked := True\<rparr>)
          else Some (s\<lparr>effects := effects s @ [E_Log (log_received (Number (payload s)) (bucketName e)),
                                                 E_Bucket (bucketName e), E_Context],
                       startTime := clock s, wg := 0, errs_cap := nat (Number (payload s)),
                       errs := [], errs_closed := False, loop_i := 0, mpc := Dispatch\<rparr>)
      | Dispatch \<Rightarrow>
          if loop_i s < Number (payload s)
          then Some (s\<lparr>wg := wg s + 1, tasks := tasks s @ [new_task (clock s)],
                       effects := effects s @ [E_Go (length (tasks s))],
                       loop_i := loop_i s + 1\<rparr>)
          else Some (s\<lparr>mpc := Wait\<rparr>)
      | Wait \<Rightarrow> if wg s = 0 then Some (s\<lparr>mpc := CloseErrs\<rparr>) else None
      | CloseErrs \<Rightarrow>
          if errs_closed s then Some (s\<lparr>panicked := True\<rparr>)
          else Some (s\<lparr>errs_closed := True, mpc := Since\<rparr>)
      | Since \<Rightarrow> Some (s\<lparr>timeTaken := clock s - startTime s, mpc := RangeErrs\<rparr>)
      | RangeErrs \<Rightarrow>
          (case errs s of
             m # rest \<Rightarrow>
               Some (s\<lparr>errs := rest, errorMessages := errorMessages s @ [m],
                       collected_at := collected_at s @ [clock s]\<rparr>)
           | [] \<Rightarrow> if errs_closed s then Some (s\<lparr>mpc := Respond\<rparr>) else None)
      | Respond \<Rightarrow>
          Some (s\<lparr>w := Some (respond (payload s) (timeTaken s) (errorMessages s)),
                  mpc := Returned\<rparr>)
      | Returned \<Rightarrow> None)"

text \<open>
  A goroutine of the loop. \<open>put\<close> stores its locals back; \<open>send\<close> is \<^verbatim>\<open>errs <- ...\<close>:
  a panic on a closed channel, blocked while the buffer is full.
\<close>

definition put :: "nat \<Rightarrow> task \<Rightarrow> state \<Rightarrow> state" where
  "put k t s = s\<lparr>tasks := (tasks s)[k := t\<lparr>t_at := clock s\<rparr>]\<rparr>"

definition send :: "nat \<Rightarrow> task \<Rightarrow> string \<Rightarrow> task_pc \<Rightarrow> state \<Rightarrow> state option" where
  "send k t msg next_pc s =
     (if errs_closed s then Some (s\<lparr>panicked := True\<rparr>)
      else if length (errs s) < errs_cap s
      then Some (put k (t\<lparr>t_sent := t_sent t @ [msg], t_pc := next_pc\<rparr>)
                   (s\<lparr>errs := errs s @ [msg]\<rparr>))
      else None)"

definition task_step :: "env \<Rightarrow> nat \<Rightarrow> state \<Rightarrow> state option" where
  "task_step e k s =
     (let t = tasks s ! k; b = backend e k in
      case t_pc t of
        Generate \<Rightarrow>
          (let key = generateObjectKey
                 \<lparr>unix_nano = clock s, zone_offset = local_zone e (clock s div 1000000000)\<rparr>
                 (key_bytes b)
           in case generateRandomString 1024 (content_bytes b) of
                None \<Rightarrow> Some (s\<lparr>panicked := True\<rparr>)
              | Some str \<Rightarrow>
                  Some (put k (t\<lparr>objectKey := key, randomString := str, t_pc := WriteString\<rparr>)
                          (s\<lparr>effects := effects s @ [E_Entropy 16, E_Entropy 1024, E_NewWriter key]\<rparr>)))
      | WriteString \<Rightarrow>
          Some (put k (t\<lparr>t_pc := (case WriteString_err b of
                                     Some err \<Rightarrow> SendWriteErr err | None \<Rightarrow> CloseWriter)\<rparr>)
                  (s\<lparr>effects := effects s @ [E_Write (objectKey t)]\<rparr>))
      | SendWriteErr err \<Rightarrow> send k t (msg_write (objectKey t) err) BestEffortClose s
      | BestEffortClose \<Rightarrow>
          Some (put k (t\<lparr>t_closes := t_closes t + 1, t_pc := WgDone\<rparr>)
                  (s\<lparr>effects := effects s @ [E_Close (objectKey t)]\<rparr>))
      | CloseWriter \<Rightarrow>
          Some (put k (t\<lparr>t_closes := t_closes t + 1,
                         t_pc := (case Close_err b of
                                    Some err \<Rightarrow> SendCloseErr err | None \<Rightarrow> LogSuccess)\<rparr>)
                  (s\<lparr>effects := effects s @ [E_Close (objectKey t)]\<rparr>))
      | SendCloseErr err \<Rightarrow> send k t (msg_close (objectKey t) err) WgDone s
      | LogSuccess \<Rightarrow>
          Some (put k (t\<lparr>t_pc := WgDone\<rparr>)
                  (s\<lparr>effects := effects s @ [E_Log (log_created (objectKey t))]\<rparr>))
      | WgDone \<Rightarrow>
          if wg s - 1 < 0 then Some (s\<lparr>panicked := True\<rparr>)
          else Some (put k (t\<lparr>t_pc := Finished\<rparr>) (s\<lparr>wg := wg s - 1\<rparr>))
      | Finished \<Rightarrow> None)"

text \<open>
  One step of the program: the clock advances by \<open>dt\<close>, then the chosen goroutine moves.
  After a panic the call takes no further step: a panic of the handler ends the call
  without a response, a panic of another goroutine ends the process.
\<close>

datatype tid = Main | Task nat

definition step :: "env \<Rightarrow> tid \<Rightarrow> nat \<Rightarrow> state \<Rightarrow> state option" where
  "step e th dt s =
     (if panicked s then None
      else let s1 = s\<lparr>clock := clock s + int dt\<rparr>
           in case th of
                Main \<Rightarrow> main_step e s1
              | Task k \<Rightarrow> if k < length (tasks s1) then task_step e k s1 else None)"

fun exec :: "env \<Rightarrow> (tid \<times> nat) list \<Rightarrow> state \<Rightarrow> state option" where
  "exec e [] s = Some s"
| "exec e ((th, dt) # sched) s =
     (case step e th dt s of None \<Rightarrow> None | Some s' \<Rightarrow> exec e sched s')"

inductive reachable :: "env \<Rightarrow> int \<Rightarrow> state \<Rightarrow> bool" for e :: env and t0 :: int where
  reachable_init: "reachable e t0 (init t0)"
| reachable_step: "reachable e t0 s \<Longrightarrow> step e th dt s = Some s' \<Longrightarrow> reachable e t0 s'"

section \<open>Invariants of the handler\<close>

text \<open>
  What holds in every reachable state. \<open>unfinished\<close> counts the goroutines that have not
  yet called \<^verbatim>\<open>wg.Done\<close>, \<open>sent_msgs\<close> lists what the goroutines have sent, \<open>outcome\<close> is
  what a goroutine sends in all, given the answers of the backend, and \<open>task_ok\<close> ties the
  history variables of a goroutine to its program counter.
\<close>

definition unfinished :: "task list \<Rightarrow> nat" where
  "unfinished ts = length (filter (\<lambda>t. t_pc t \<noteq> Finished) ts)"

definition sent_msgs :: "task list \<Rightarrow> string list" where
  "sent_msgs ts = concat (map t_sent ts)"

definition outcome :: "backend \<Rightarrow> string \<Rightarrow> string list" where
  "outcome b key =
     (case WriteString_err b of
        Some err \<Rightarrow> [msg_write key err]
      | None \<Rightarrow> (case Close_err b of Some err \<Rightarrow> [msg_close key err] | None \<Rightarrow> []))"

definition task_ok :: "backend \<Rightarrow> task \<Rightarrow> bool" where
  "task_ok b t \<longleftrightarrow>
     (t_pc t \<noteq> Generate \<longrightarrow>
        length (randomString t) = 1024 \<and> set (randomString t) \<subseteq> set charset) \<and>
     (case t_pc t of
        Generate \<Rightarrow> t_sent t = [] \<and> t_closes t = 0
      | WriteString \<Rightarrow> t_sent t = [] \<and> t_closes t = 0
      | SendWriteErr err \<Rightarrow> t_sent t = [] \<and> t_closes t = 0 \<and> WriteString_err b = Some err
      | BestEffortClose \<Rightarrow>
          t_closes t = 0 \<and> WriteString_err b \<noteq> None \<and> t_sent t = outcome b (objectKey t)
      | CloseWriter \<Rightarrow> t_sent t = [] \<and> t_closes t = 0 \<and> WriteString_err b = None
      | SendCloseErr err \<Rightarrow>
          t_sent t = [] \<and> t_closes t = 1 \<and> WriteString_err b = None \<and> Close_err b = Some err
      | LogSuccess \<Rightarrow>
          t_sent t = [] \<and> t_closes t = 1 \<and> WriteString_err b = None \<and> Close_err b = None
      | WgDone \<Rightarrow> t_closes t = 1 \<and> t_sent t = outcome b (objectKey t)
      | Finished \<Rightarrow> t_closes t = 1 \<and> t_sent t = outcome b (objectKey t))"

definition inv_ctl :: "env \<Rightarrow> state \<Rightarrow> bool" where
  "inv_ctl e s \<longleftrightarrow>
     (panicked s \<longrightarrow> mpc s = Setup \<and> chan_limit e < Number (payload s)) \<and>
     length (collected_at s) = length (errorMessages s) \<and>
     (mpc s \<in> {Validate, Setup} \<longrightarrow> tasks s = [] \<and> errs s = [] \<and> wg s = 0) \<and>
     (mpc s = Validate \<longrightarrow> effects s = []) \<and>
     (mpc s \<in> {Validate, Setup, Dispatch, Wait, CloseErrs, Since} \<longrightarrow> errorMessages s = []) \<and>
     (mpc s \<noteq> Returned \<longrightarrow> w s = None) \<and>
     (mpc s \<in> {Validate, Setup, Dispatch, Wait, CloseErrs} \<longrightarrow> \<not> errs_closed s) \<and>
     (mpc s \<noteq> Validate \<and> mpc s \<noteq> Returned \<longrightarrow> validate (r e) = Inr (payload s)) \<and>
     (mpc s = Dispatch \<longrightarrow> loop_i s = int (length (tasks s)) \<and> loop_i s \<le> Number (payload s)) \<and>
     (mpc s \<in> {Dispatch, Wait, CloseErrs, Since, RangeErrs, Respond} \<longrightarrow>
        errs_cap s = nat (Number (payload s)) \<and> Number (payload s) \<le> chan_limit e) \<and>
     (mpc s \<in> {Wait, CloseErrs, Since, RangeErrs, Respond} \<longrightarrow>
        int (length (tasks s)) = Number (payload s)) \<and>
     (mpc s \<in> {CloseErrs, Since, RangeErrs, Respond} \<longrightarrow> wg s = 0) \<and>
     (mpc s \<in> {Since, RangeErrs, Respond} \<longrightarrow> errs_closed s) \<and>
     (mpc s = Respond \<longrightarrow> errs s = []) \<and>
     (mpc s = Returned \<longrightarrow>
        (\<forall>resp. validate (r e) = Inl resp \<longrightarrow>
           w s = Some resp \<and> tasks s = [] \<and> effects s = [] \<and> errs s = []
           \<and> errorMessages s = [] \<and> wg s = 0) \<and>
        (\<forall>p. validate (r e) = Inr p \<longrightarrow>
           payload s = p \<and> int (length (tasks s)) = Number p \<and> wg s = 0
           \<and> errs s = [] \<and> errs_closed s \<and> errs_cap s = nat (Number p)
           \<and> Number p \<le> chan_limit e
           \<and> w s = Some (respond p (timeTaken s) (errorMessages s))))"

definition inv_time :: "state \<Rightarrow> bool" where
  "inv_time s \<longleftrightarrow>
     (\<forall>t\<in>set (tasks s). startTime s \<le> t_at t \<and> t_at t \<le> clock s) \<and>
     (\<forall>c\<in>set (collected_at s). startTime s + timeTaken s \<le> c \<and> c \<le> clock s) \<and>
     (mpc s \<in> {Dispatch, Wait, CloseErrs, Since} \<longrightarrow> startTime s \<le> clock s) \<and>
     (mpc s \<in> {RangeErrs, Respond} \<or> mpc s = Returned \<and> tasks s \<noteq> [] \<longrightarrow>
        0 \<le> timeTaken s \<and> startTime s + timeTaken s \<le> clock s \<and>
        (\<forall>t\<in>set (tasks s). t_at t \<le> startTime s + timeTaken s))"

definition handler_inv :: "env \<Rightarrow> state \<Rightarrow> bool" where
  "handler_inv e s \<longleftrightarrow>
     inv_ctl e s \<and>
     wg s = int (unfinished (tasks s)) \<and>
     (\<forall>k<length (tasks s). task_ok (backend e k) (tasks s ! k)) \<and>
     mset (errs s) + mset (errorMessages s) = mset (sent_msgs (tasks s)) \<and>
     inv_time s"

text \<open>The count of the request, if it is accepted, is one the runtime makes a channel for.\<close>

definition within_limit :: "env \<Rightarrow> bool" where
  "within_limit e \<longleftrightarrow> (\<forall>p. validate (r e) = Inr p \<longrightarrow> Number p \<le> chan_limit e)"

subsection \<open>A measure of the steps left\<close>

text \<open>
  Every program counter has a weight that its step lowers; a send lowers the weight of the
  goroutine by more than the one message it adds to the channel, and a goroutine not yet
  started weighs more than a new one. A panic uses up the last unit.
\<close>

fun main_weight :: "main_pc \<Rightarrow> nat" where
  "main_weight Validate = 8"
| "main_weight Setup = 7"
| "main_weight Dispatch = 6"
| "main_weight Wait = 5"
| "main_weight CloseErrs = 4"
| "main_weight Since = 3"
| "main_weight RangeErrs = 2"
| "main_weight Respond = 1"
| "main_weight Returned = 0"

fun task_weight :: "task_pc \<Rightarrow> nat" where
  "task_weight Generate = 8"
| "task_weight WriteString = 7"
| "task_weight (SendWriteErr err) = 6"
| "task_weight BestEffortClose = 2"
| "task_weight CloseWriter = 6"
| "task_weight (SendCloseErr err) = 5"
| "task_weight LogSuccess = 2"
| "task_weight WgDone = 1"
| "task_weight Finished = 0"

definition requested :: "env \<Rightarrow> nat" where
  "requested e = (case validate (r e) of Inl resp \<Rightarrow> 0 | Inr p \<Rightarrow> nat (Number p))"

definition tasks_weight :: "task list \<Rightarrow> nat" where
  "tasks_weight ts = sum_list (map (\<lambda>t. task_weight (t_pc t)) ts)"

definition steps_left :: "env \<Rightarrow> state \<Rightarrow> nat" where
  "steps_left e s =
     main_weight (mpc s) + 9 * (requested e - length (tasks s)) + tasks_weight (tasks s)
       + length (errs s) + (if panicked s then 0 else 1)"


section \<open>Process start (main.go, lines 37-76)\<close>

text \<open>
  What \<^verbatim>\<open>main\<close> finds when the process starts: the result of \<^verbatim>\<open>godotenv.Load()\<close> (the
  error text, or the variables read from the file \<^verbatim>\<open>.env\<close> of the working directory), the
  variables already in the process environment, the error of \<^verbatim>\<open>storage.NewClient\<close> and
  the error with which \<^verbatim>\<open>http.ListenAndServe\<close> returns (\<open>None\<close>: it keeps serving).
  \<^verbatim>\<open>godotenv.Load\<close> sets the variables of the file that the environment does not have yet.
\<close>

record os =
  dotenv :: "string + (string \<rightharpoonup> string)"
  environ :: "string \<rightharpoonup> string"
  NewClient_err :: "string option"
  ListenAndServe_err :: "string option"

definition Getenv :: "(string \<rightharpoonup> string) \<Rightarrow> string \<Rightarrow> string" where
  "Getenv vars key = (case vars key of None \<Rightarrow> [] | Some v \<Rightarrow> v)"

datatype startup_event =
  Ev_Load | Ev_Getenv string | Ev_Println string | Ev_NewClient | Ev_HandleFunc string
  | Ev_Printf string | Ev_ListenAndServe string

text \<open>\<^verbatim>\<open>log.Fatal\<close> prints and exits with status 1; \<open>Serving\<close> is the listener running.\<close>

datatype outcome_of_main = Fatal string | Serving string

definition main :: "os \<Rightarrow> startup_event list \<times> outcome_of_main" where
  "main os =
     (case dotenv os of
        Inl errDot \<Rightarrow> ([Ev_Load], Fatal ''Error loading .env file'')
      | Inr file_vars \<Rightarrow>
          let vars = file_vars ++ environ os;
              ev1 = [Ev_Load, Ev_Getenv ''GCS_BUCKET_NAME'',
                     Ev_Println (''Starting server and writing to  '' @ Getenv vars ''GCS_BUCKET_NAME''),
                     Ev_NewClient]
          in case NewClient_err os of
               Some err \<Rightarrow> (ev1, Fatal (''Failed to create GCS client: '' @ err))
             | None \<Rightarrow>
                 let bucketName = Getenv vars ''GCS_BUCKET_NAME'';
                     ev2 = ev1 @ [Ev_Getenv ''GCS_BUCKET_NAME'']
                 in if bucketName = []
                    then (ev2, Fatal ''GCS_BUCKET_NAME environment variable not set'')
                    else
                      let port = Getenv vars ''PORT'';
                          port = (if port = [] then ''8080'' else port);
                          ev3 = ev2 @ [Ev_HandleFunc ''/'', Ev_Getenv ''PORT'',
                                       Ev_Printf (''Starting server on port '' @ port),
                                       Ev_ListenAndServe ('':'' @ port)]
                      in case ListenAndServe_err os of
                           Some err \<Rightarrow> (ev3, Fatal (''Failed to start server: '' @ err))
                         | None \<Rightarrow> (ev3, Serving ('':'' @ port)))"

section \<open>Notions used in the statements\<close>


text \<open>
  The state a schedule leads to from the initial state (the initial state itself when the
  schedule names a goroutine that has no step). A request for two objects whose first
  write fails, one interleaving of its goroutines, and a request with a count of zero: the
  concrete inputs of the examples below.
\<close>

definition run :: "env \<Rightarrow> (tid \<times> nat) list \<Rightarrow> int \<Rightarrow> state" where
  "run e sched t0 = (case exec e sched (init t0) of Some s \<Rightarrow> s | None \<Rightarrow> init t0)"

definition demo_env :: env where
  "demo_env =
     \<lparr>r = \<lparr>Method = ''POST'', Decode = Inr \<lparr>Number = 2\<rparr>\<rparr>, bucketName = ''bucket'',
      local_zone = (\<lambda>t. 0),
      backend = (\<lambda>k. \<lparr>key_bytes = replicate 16 (of_nat k), content_bytes = [],
                        WriteString_err = (if k = 0 then Some ''boom'' else None),
                        Close_err = None\<rparr>),
      chan_limit = 17592186044409\<rparr>"

definition demo_sched :: "(tid \<times> nat) list" where
  "demo_sched =
     [(Main, 1), (Main, 1), (Main, 1), (Task 0, 1), (Task 0, 1), (Main, 0), (Task 1, 5),
      (Task 0, 2), (Task 1, 0), (Task 1, 0), (Task 1, 0), (Task 0, 0), (Task 0, 0), (Main, 0),
      (Task 1, 3), (Main, 0), (Main, 0), (Main, 0), (Main, 7), (Main, 0), (Main, 0)]"

definition demo_final :: state where
  "demo_final = run demo_env demo_sched 100"

definition demo_rejected :: env where
  "demo_rejected = demo_env\<lparr>r := \<lparr>Method = ''POST'', Decode = Inr \<lparr>Number = 0\<rparr>\<rparr>\<rparr>"

definition demo_answered :: state where
  "demo_answered = run demo_rejected [(Main, 5)] 0"

text \<open>
  A request for two objects whose writes and closes all fail, stopped after the first send,
  and run to the end.
\<close>

definition demo_all_fail :: env where
  "demo_all_fail =
     demo_env\<lparr>backend := (\<lambda>k. \<lparr>key_bytes = [], content_bytes = [],
                                   WriteString_err = Some ''boom'', Close_err = Some ''late''\<rparr>)\<rparr>"

definition demo_mid_sched :: "(tid \<times> nat) list" where
  "demo_mid_sched =
     [(Main, 1), (Main, 1), (Main, 1), (Main, 0), (Task 0, 1), (Task 0, 0), (Task 1, 0),
      (Task 1, 0), (Task 0, 0)]"


definition demo_fail_sched :: "(tid \<times> nat) list" where
  "demo_fail_sched =
     [(Main, 1), (Main, 1), (Main, 1), (Main, 0), (Main, 0), (Task 1, 2), (Task 0, 1),
      (Task 0, 0), (Task 1, 0), (Task 1, 0), (Task 0, 0), (Task 0, 3), (Task 1, 0),
      (Task 1, 1), (Task 0, 0), (Main, 0), (Main, 0), (Main, 0), (Main, 4), (Main, 0),
      (Main, 0), (Main, 0)]"

definition demo_fail_final :: state where
  "demo_fail_final = run demo_all_fail demo_fail_sched 100"




subsection \<open>Reading an object key\<close>

text \<open>
  What a reader of a key sees, for the statements about generateObjectKey: the segment
  before the first slash and the segment after it, the two digits a number below 100 is
  written with, the bytes that a string of hexadecimal digit pairs encodes, and the time of
  day hhmmss of a count of seconds.
\<close>

definition folder_segment :: "string \<Rightarrow> string" where
  "folder_segment key = takeWhile (\<lambda>c. c \<noteq> CHR ''/'') key"

definition file_segment :: "string \<Rightarrow> string" where
  "file_segment key = drop 1 (dropWhile (\<lambda>c. c \<noteq> CHR ''/'') key)"

definition two_digits :: "int \<Rightarrow> string" where
  "two_digits x = [digit_char (nat x div 10), digit_char (nat x mod 10)]"

definition hex_value :: "char \<Rightarrow> nat" where
  "hex_value c = length (takeWhile (\<lambda>d. d \<noteq> c) ''0123456789abcdef'')"

fun unhex :: "string \<Rightarrow> byte list" where
  "unhex (a # b # cs) = of_nat (16 * hex_value a + hex_value b) # unhex cs"
| "unhex cs = []"

definition hhmmss :: "int \<Rightarrow> string" where
  "hhmmss wall =
     two_digits (wall mod 86400 div 3600) @ two_digits (wall mod 3600 div 60)
     @ two_digits (wall mod 60)"

section \<open>Proofs\<close>

subsection \<open>Content generation\<close>

declare charset_loop.simps [simp del]

lemma length_rand_Read [simp]: "length (rand_Read delivered b) = length b"
  by (simp add: rand_Read_def)

lemma length_make_bytes [simp]: "length (make_bytes n) = n"
  by (simp add: make_bytes_def)

lemma length_charset: "length charset = 62"
  by (simp add: charset_def)

lemma char_of_byte_of_char [simp]: "char_of_byte (byte_of_char c) = c"
  by (simp add: char_of_byte_def byte_of_char_def unat_of_nat)

lemma charset_at_mem: "char_of_byte (charset_at x) \<in> set charset"
proof -
  have "unat (x mod 62) < 62"
    by (simp add: unat_mod)
  then have "unat (x mod of_nat (length charset)) < length charset"
    by (simp add: length_charset)
  then show ?thesis
    unfolding charset_at_def char_of_byte_of_char by (rule nth_mem)
qed

lemma charset_loop_eq:
  "i \<le> n \<Longrightarrow> length b = n \<Longrightarrow>
   charset_loop i n b = take i b @ map charset_at (drop i b)"
proof (induction i n b rule: charset_loop.induct)
  case (1 i n b)
  show ?case
  proof (cases "i < n")
    case True
    let ?b = "b[i := charset_at (b ! i)]"
    have "charset_loop i n b = charset_loop (i + 1) n ?b"
      using True by (subst charset_loop.simps) simp
    also have "\<dots> = take (i + 1) ?b @ map charset_at (drop (i + 1) ?b)"
      using True "1.prems" by (intro "1.IH") simp_all
    also have "take (i + 1) ?b = take i b @ [charset_at (b ! i)]"
      using True "1.prems" by (simp add: take_Suc_conv_app_nth)
    also have "drop (i + 1) ?b = drop (Suc i) b"
      by simp
    also have "(take i b @ [charset_at (b ! i)]) @ map charset_at (drop (Suc i) b)
        = take i b @ map charset_at (drop i b)"
      using True "1.prems" by (simp flip: Cons_nth_drop_Suc)
    finally show ?thesis .
  next
    case False
    with "1.prems" show ?thesis
      by (subst charset_loop.simps) simp
  qed
qed

lemma generateRandomString_eq:
  "0 \<le> len \<Longrightarrow> len \<le> maxAlloc \<Longrightarrow>
   generateRandomString len delivered =
     Some (map (\<lambda>x. char_of_byte (charset_at x)) (rand_Read delivered (make_bytes (nat len))))"
  by (simp add: generateRandomString_def Let_def charset_loop_eq)

lemma generateRandomString_props:
  assumes "generateRandomString len delivered = Some str"
  shows "int (length str) = len" "set str \<subseteq> set charset"
proof -
  from assms have len: "0 \<le> len" "len \<le> maxAlloc"
    by (simp_all add: generateRandomString_def split: if_splits)
  with assms have str: "str = map (\<lambda>x. char_of_byte (charset_at x))
      (rand_Read delivered (make_bytes (nat len)))"
    by (simp add: generateRandomString_eq)
  from str len(1) show "int (length str) = len" by simp
  from str show "set str \<subseteq> set charset" by (auto simp: charset_at_mem)
qed

subsection \<open>The steps, case by case\<close>

lemma main_step_elim [consumes 1, case_names Reject Accept SetupPanic Setup Go LoopEnd Wait ClosePanic Close Since Recv RangeEnd Respond]:
  assumes "main_step e s = Some s'"
  obtains
    resp where "mpc s = Validate" "validate (r e) = Inl resp"
      "s' = s\<lparr>w := Some resp, mpc := Returned\<rparr>"
  | p where "mpc s = Validate" "validate (r e) = Inr p" "s' = s\<lparr>payload := p, mpc := Setup\<rparr>"
  | "mpc s = Setup" "chan_limit e < Number (payload s)"
      "s' = s\<lparr>effects := effects s @ [E_Log (log_received (Number (payload s)) (bucketName e)),
                                          E_Bucket (bucketName e), E_Context],
                  startTime := clock s, wg := 0, panicked := True\<rparr>"
  | "mpc s = Setup" "\<not> chan_limit e < Number (payload s)"
      "s' = s\<lparr>effects := effects s @ [E_Log (log_received (Number (payload s)) (bucketName e)),
                                          E_Bucket (bucketName e), E_Context],
                  startTime := clock s, wg := 0, errs_cap := nat (Number (payload s)),
                  errs := [], errs_closed := False, loop_i := 0, mpc := Dispatch\<rparr>"
  | "mpc s = Dispatch" "loop_i s < Number (payload s)"
      "s' = s\<lparr>wg := wg s + 1, tasks := tasks s @ [new_task (clock s)],
                effects := effects s @ [E_Go (length (tasks s))], loop_i := loop_i s + 1\<rparr>"
  | "mpc s = Dispatch" "\<not> loop_i s < Number (payload s)" "s' = s\<lparr>mpc := Wait\<rparr>"
  | "mpc s = Wait" "wg s = 0" "s' = s\<lparr>mpc := CloseErrs\<rparr>"
  | "mpc s = CloseErrs" "errs_closed s" "s' = s\<lparr>panicked := True\<rparr>"
  | "mpc s = CloseErrs" "\<not> errs_closed s" "s' = s\<lparr>errs_closed := True, mpc := Since\<rparr>"
  | "mpc s = Since" "s' = s\<lparr>timeTaken := clock s - startTime s, mpc := RangeErrs\<rparr>"
  | "mpc s = RangeErrs" "errs s \<noteq> []"
      "s' = s\<lparr>errs := tl (errs s), errorMessages := errorMessages s @ [hd (errs s)],
                collected_at := collected_at s @ [clock s]\<rparr>"
  | "mpc s = RangeErrs" "errs s = []" "errs_closed s" "s' = s\<lparr>mpc := Respond\<rparr>"
  | "mpc s = Respond"
      "s' = s\<lparr>w := Some (respond (payload s) (timeTaken s) (errorMessages s)), mpc := Returned\<rparr>"
proof (cases "mpc s")
  case Validate
  with assms that(1,2) show ?thesis
    by (cases "validate (r e)") (auto simp: main_step_def)
next
  case Setup
  with assms that(3,4) show ?thesis
    by (cases "chan_limit e < Number (payload s)") (auto simp: main_step_def)
next
  case Dispatch
  with assms that(5,6) show ?thesis
    by (cases "loop_i s < Number (payload s)") (auto simp: main_step_def)
next
  case Wait
  with assms that(7) show ?thesis
    by (cases "wg s = 0") (auto simp: main_step_def)
next
  case CloseErrs
  with assms that(8,9) show ?thesis
    by (cases "errs_closed s") (auto simp: main_step_def)
next
  case Since
  with assms that(10) show ?thesis by (auto simp: main_step_def)
next
  case RangeErrs
  with assms that(11,12) show ?thesis
    by (cases "errs s"; cases "errs_closed s") (auto simp: main_step_def)
next
  case Respond
  with assms that(13) show ?thesis by (auto simp: main_step_def)
next
  case Returned
  with assms show ?thesis by (simp add: main_step_def)
qed

lemma generateRandomString_Some:
  "0 \<le> len \<Longrightarrow> len \<le> maxAlloc \<Longrightarrow> \<exists>str. generateRandomString len d = Some str"
  by (simp add: generateRandomString_def Let_def)

lemma maxAlloc_1024: "1024 \<le> maxAlloc"
  by (simp add: maxAlloc_def)

lemma send_elim [consumes 1, case_names SendPanic Send]:
  assumes "send k t msg next_pc s = Some s'"
  obtains "errs_closed s" "s' = s\<lparr>panicked := True\<rparr>"
  | "\<not> errs_closed s" "length (errs s) < errs_cap s"
    "s' = put k (t\<lparr>t_sent := t_sent t @ [msg], t_pc := next_pc\<rparr>) (s\<lparr>errs := errs s @ [msg]\<rparr>)"
  using assms by (auto simp: send_def split: if_splits)

lemma task_step_elim [consumes 1, case_names Generate WriteString SendWritePanic SendWrite BestEffortClose CloseWriter SendClosePanic SendClose LogSuccess WgPanic WgDone]:
  assumes "task_step e k s = Some s'"
  obtains
    str where "t_pc (tasks s ! k) = Generate"
      "generateRandomString 1024 (content_bytes (backend e k)) = Some str"
      "s' = put k ((tasks s ! k)\<lparr>objectKey := generateObjectKey
                 \<lparr>unix_nano = clock s, zone_offset = local_zone e (clock s div 1000000000)\<rparr>
                 (key_bytes (backend e k)), randomString := str, t_pc := WriteString\<rparr>)
              (s\<lparr>effects := effects s @ [E_Entropy 16, E_Entropy 1024, E_NewWriter (generateObjectKey
                 \<lparr>unix_nano = clock s, zone_offset = local_zone e (clock s div 1000000000)\<rparr>
                 (key_bytes (backend e k)))]\<rparr>)"
  | "t_pc (tasks s ! k) = WriteString"
      "s' = put k ((tasks s ! k)\<lparr>t_pc := (case WriteString_err (backend e k) of
                                     Some err \<Rightarrow> SendWriteErr err | None \<Rightarrow> CloseWriter)\<rparr>)
                  (s\<lparr>effects := effects s @ [E_Write (objectKey (tasks s ! k))]\<rparr>)"
  | err where "t_pc (tasks s ! k) = SendWriteErr err" "errs_closed s" "s' = s\<lparr>panicked := True\<rparr>"
  | err where "t_pc (tasks s ! k) = SendWriteErr err" "\<not> errs_closed s" "length (errs s) < errs_cap s"
      "s' = put k ((tasks s ! k)\<lparr>t_sent := t_sent (tasks s ! k) @ [msg_write (objectKey (tasks s ! k)) err],
                     t_pc := BestEffortClose\<rparr>)
              (s\<lparr>errs := errs s @ [msg_write (objectKey (tasks s ! k)) err]\<rparr>)"
  | "t_pc (tasks s ! k) = BestEffortClose"
      "s' = put k ((tasks s ! k)\<lparr>t_closes := t_closes (tasks s ! k) + 1, t_pc := WgDone\<rparr>)
                  (s\<lparr>effects := effects s @ [E_Close (objectKey (tasks s ! k))]\<rparr>)"
  | "t_pc (tasks s ! k) = CloseWriter"
      "s' = put k ((tasks s ! k)\<lparr>t_closes := t_closes (tasks s ! k) + 1,
                         t_pc := (case Close_err (backend e k) of
                                    Some err \<Rightarrow> SendCloseErr err | None \<Rightarrow> LogSuccess)\<rparr>)
                  (s\<lparr>effects := effects s @ [E_Close (objectKey (tasks s ! k))]\<rparr>)"
  | err where "t_pc (tasks s ! k) = SendCloseErr err" "errs_closed s" "s' = s\<lparr>panicked := True\<rparr>"
  | err where "t_pc (tasks s ! k) = SendCloseErr err" "\<not> errs_closed s" "length (errs s) < errs_cap s"
      "s' = put k ((tasks s ! k)\<lparr>t_sent := t_sent (tasks s ! k) @ [msg_close (objectKey (tasks s ! k)) err],
                     t_pc := WgDone\<rparr>)
              (s\<lparr>errs := errs s @ [msg_close (objectKey (tasks s ! k)) err]\<rparr>)"
  | "t_pc (tasks s ! k) = LogSuccess"
      "s' = put k ((tasks s ! k)\<lparr>t_pc := WgDone\<rparr>)
                  (s\<lparr>effects := effects s @ [E_Log (log_created (objectKey (tasks s ! k)))]\<rparr>)"
  | "t_pc (tasks s ! k) = WgDone" "wg s - 1 < 0" "s' = s\<lparr>panicked := True\<rparr>"
  | "t_pc (tasks s ! k) = WgDone" "\<not> wg s - 1 < 0"
      "s' = put k ((tasks s ! k)\<lparr>t_pc := Finished\<rparr>) (s\<lparr>wg := wg s - 1\<rparr>)"
proof (cases "t_pc (tasks s ! k)")
  case Generate
  obtain str where "generateRandomString 1024 (content_bytes (backend e k)) = Some str"
    using generateRandomString_Some [of 1024] maxAlloc_1024 by auto
  with Generate assms that(1) show ?thesis
    by (auto simp: task_step_def Let_def)
next
  case WriteString
  with assms that(2) show ?thesis by (auto simp: task_step_def Let_def)
next
  case (SendWriteErr err)
  with assms have "send k (tasks s ! k) (msg_write (objectKey (tasks s ! k)) err) BestEffortClose s = Some s'"
    by (auto simp: task_step_def Let_def)
  then show ?thesis
    using SendWriteErr that(3,4) by (cases rule: send_elim) auto
next
  case BestEffortClose
  with assms that(5) show ?thesis by (auto simp: task_step_def Let_def)
next
  case CloseWriter
  with assms that(6) show ?thesis by (auto simp: task_step_def Let_def)
next
  case (SendCloseErr err)
  with assms have "send k (tasks s ! k) (msg_close (objectKey (tasks s ! k)) err) WgDone s = Some s'"
    by (auto simp: task_step_def Let_def)
  then show ?thesis
    using SendCloseErr that(7,8) by (cases rule: send_elim) auto
next
  case LogSuccess
  with assms that(9) show ?thesis by (auto simp: task_step_def Let_def)
next
  case WgDone
  with assms that(10,11) show ?thesis by (auto simp: task_step_def Let_def split: if_splits)
next
  case Finished
  with assms show ?thesis by (auto simp: task_step_def Let_def)
qed

subsection \<open>Lists of tasks\<close>

lemma unfinished_Nil [simp]: "unfinished [] = 0"
  by (simp add: unfinished_def)

lemma unfinished_append [simp]:
  "unfinished (ts @ us) = unfinished ts + unfinished us"
  by (simp add: unfinished_def)

lemma unfinished_Cons:
  "unfinished (t # ts) = (if t_pc t \<noteq> Finished then 1 else 0) + unfinished ts"
  by (simp add: unfinished_def)

lemma unfinished_update_same:
  "k < length ts \<Longrightarrow> t_pc (ts ! k) \<noteq> Finished \<Longrightarrow> t_pc t \<noteq> Finished \<Longrightarrow>
   unfinished (ts[k := t]) = unfinished ts"
proof (induction ts arbitrary: k)
  case Nil
  then show ?case by simp
next
  case (Cons a ts)
  show ?case
  proof (cases k)
    case 0
    with Cons.prems show ?thesis by (simp add: unfinished_Cons)
  next
    case (Suc j)
    with Cons.prems have "unfinished (ts[j := t]) = unfinished ts"
      by (intro Cons.IH) simp_all
    with Suc show ?thesis by (simp add: unfinished_Cons)
  qed
qed

lemma unfinished_update_done:
  "k < length ts \<Longrightarrow> t_pc (ts ! k) \<noteq> Finished \<Longrightarrow> t_pc t = Finished \<Longrightarrow>
   Suc (unfinished (ts[k := t])) = unfinished ts"
proof (induction ts arbitrary: k)
  case Nil
  then show ?case by simp
next
  case (Cons a ts)
  show ?case
  proof (cases k)
    case 0
    with Cons.prems show ?thesis by (simp add: unfinished_Cons)
  next
    case (Suc j)
    with Cons.prems have IH: "Suc (unfinished (ts[j := t])) = unfinished ts"
      by (intro Cons.IH) simp_all
    define c :: nat where "c = (if t_pc a \<noteq> Finished then 1 else 0)"
    have A: "unfinished ((a # ts)[k := t]) = c + unfinished (ts[j := t])"
      unfolding c_def Suc by (simp only: list_update_code unfinished_Cons)
    have B: "unfinished (a # ts) = c + unfinished ts"
      unfolding c_def by (simp only: unfinished_Cons)
    from A B IH show ?thesis by linarith
  qed
qed

lemma unfinished_pos: "k < length ts \<Longrightarrow> t_pc (ts ! k) \<noteq> Finished \<Longrightarrow> 0 < unfinished ts"
  using nth_mem [of k ts] by (auto simp: unfinished_def filter_empty_conv)

lemma unfinished_0: "unfinished ts = 0 \<longleftrightarrow> (\<forall>t\<in>set ts. t_pc t = Finished)"
  by (auto simp: unfinished_def filter_empty_conv)

lemma unfinished_ex: "0 < unfinished ts \<Longrightarrow> \<exists>k<length ts. t_pc (ts ! k) \<noteq> Finished"
proof -
  assume "0 < unfinished ts"
  then obtain t where "t \<in> set ts" "t_pc t \<noteq> Finished"
    by (auto simp: unfinished_def filter_empty_conv)
  then show ?thesis by (auto simp: in_set_conv_nth)
qed

lemma sent_msgs_Nil [simp]: "sent_msgs [] = []"
  by (simp add: sent_msgs_def)

lemma sent_msgs_append [simp]: "sent_msgs (ts @ us) = sent_msgs ts @ sent_msgs us"
  by (simp add: sent_msgs_def)

lemma sent_msgs_Cons: "sent_msgs (t # ts) = t_sent t @ sent_msgs ts"
  by (simp add: sent_msgs_def)

lemma sent_msgs_update:
  "k < length ts \<Longrightarrow> t_sent t = t_sent (ts ! k) @ ms \<Longrightarrow>
   mset (sent_msgs (ts[k := t])) = mset (sent_msgs ts) + mset ms"
proof (induction ts arbitrary: k)
  case Nil
  then show ?case by simp
next
  case (Cons a ts)
  show ?case
  proof (cases k)
    case 0
    with Cons.prems show ?thesis by (simp add: sent_msgs_Cons)
  next
    case (Suc j)
    with Cons.prems have "mset (sent_msgs (ts[j := t])) = mset (sent_msgs ts) + mset ms"
      by (intro Cons.IH) simp_all
    with Suc show ?thesis by (simp add: sent_msgs_Cons)
  qed
qed

lemma sent_msgs_length:
  "\<forall>t\<in>set ts. length (t_sent t) \<le> 1 \<Longrightarrow>
   length (sent_msgs ts) \<le> length (filter (\<lambda>t. t_sent t \<noteq> []) ts)"
proof (induction ts)
  case Nil
  then show ?case by simp
next
  case (Cons a ts)
  then have "length (t_sent a) \<le> 1" by simp
  then have "length (t_sent a) = (if t_sent a \<noteq> [] then 1 else 0)"
    by (cases "t_sent a") auto
  with Cons show ?case by (simp add: sent_msgs_Cons)
qed

lemma sent_msgs_less:
  assumes "\<forall>t\<in>set ts. length (t_sent t) \<le> 1" "k < length ts" "t_sent (ts ! k) = []"
  shows "length (sent_msgs ts) < length ts"
proof -
  have "length (filter (\<lambda>t. t_sent t \<noteq> []) ts) < length ts"
    using assms(2,3) by (intro length_filter_less [of "ts ! k"]) auto
  with sent_msgs_length [OF assms(1)] show ?thesis by simp
qed

lemma outcome_length: "length (outcome b key) \<le> 1"
  by (simp add: outcome_def split: option.splits)

lemma task_ok_sent_length: "task_ok b t \<Longrightarrow> length (t_sent t) \<le> 1"
  using outcome_length [of b "objectKey t"]
  by (cases "t_pc t") (simp_all add: task_ok_def)

subsection \<open>The invariant holds initially and is kept by every step\<close>

lemma validate_pos: "validate rq = Inr p \<Longrightarrow> 0 < Number p"
  by (auto simp: validate_def split: if_splits sum.splits)

lemma inv_init: "handler_inv e (init t0)"
  by (simp add: handler_inv_def inv_ctl_def inv_time_def init_def)

lemma inv_ctl_clock: "inv_ctl e (s\<lparr>clock := c\<rparr>) = inv_ctl e s"
  by (simp add: inv_ctl_def)

lemma inv_time_tick:
  assumes "inv_time s"
  shows "inv_time (s\<lparr>clock := clock s + int dt\<rparr>)"
proof -
  have le: "x \<le> clock s \<Longrightarrow> x \<le> clock s + int dt" for x by simp
  from assms show ?thesis
    unfolding inv_time_def by (simp add: le)
qed

lemma inv_tick: "handler_inv e s \<Longrightarrow> handler_inv e (s\<lparr>clock := clock s + int dt\<rparr>)"
  by (simp add: handler_inv_def inv_ctl_clock inv_time_tick)

lemma closed_finished:
  assumes "handler_inv e s" "errs_closed s"
  shows "unfinished (tasks s) = 0"
proof -
  from assms have "wg s = 0"
    by (cases "mpc s"; cases "validate (r e)") (auto simp: handler_inv_def inv_ctl_def)
  from this assms(1) show ?thesis by (simp add: handler_inv_def)
qed

lemma tasks_bound:
  assumes "handler_inv e s" "tasks s \<noteq> []"
  shows "length (tasks s) \<le> errs_cap s"
  using assms
  by (cases "mpc s"; cases "validate (r e)") (auto simp: handler_inv_def inv_ctl_def)

lemma send_free:
  assumes "handler_inv e s" "k < length (tasks s)" "t_sent (tasks s ! k) = []"
  shows "length (errs s) < errs_cap s"
proof -
  have ok: "\<forall>t\<in>set (tasks s). length (t_sent t) \<le> 1"
  proof
    fix t assume "t \<in> set (tasks s)"
    then obtain i where "i < length (tasks s)" "t = tasks s ! i"
      by (auto simp: in_set_conv_nth)
    with assms(1) have "task_ok (backend e i) t" by (simp add: handler_inv_def)
    then show "length (t_sent t) \<le> 1" by (rule task_ok_sent_length)
  qed
  from assms(1) have "size (mset (errs s) + mset (errorMessages s)) = size (mset (sent_msgs (tasks s)))"
    by (simp only: handler_inv_def)
  then have "length (errs s) \<le> length (sent_msgs (tasks s))" by simp
  also have "\<dots> < length (tasks s)" using ok assms(2,3) by (rule sent_msgs_less)
  also have "\<dots> \<le> errs_cap s" using assms(1,2) by (intro tasks_bound) auto
  finally show ?thesis .
qed

lemma inv_main:
  assumes "handler_inv e s" "main_step e s = Some s'"
  shows "handler_inv e s'"
  using assms(2)
proof (cases rule: main_step_elim)
  case (Reject resp)
  from this assms(1) show ?thesis by (auto simp: handler_inv_def inv_ctl_def inv_time_def)
next
  case (Accept p)
  from this assms(1) show ?thesis by (auto simp: handler_inv_def inv_ctl_def inv_time_def)
next
  case SetupPanic
  from this assms(1) show ?thesis by (auto simp: handler_inv_def inv_ctl_def inv_time_def)
next
  case Setup
  from this validate_pos [of "r e" "payload s"] assms(1) show ?thesis
    by (auto simp: handler_inv_def inv_ctl_def inv_time_def)
next
  case Go
  from this assms(1) show ?thesis
    by (auto simp: handler_inv_def inv_ctl_def inv_time_def nth_append task_ok_def new_task_def
        unfinished_def sent_msgs_def)
next
  case LoopEnd
  from this assms(1) show ?thesis by (auto simp: handler_inv_def inv_ctl_def inv_time_def)
next
  case Wait
  from this assms(1) show ?thesis by (auto simp: handler_inv_def inv_ctl_def inv_time_def)
next
  case ClosePanic
  from this assms(1) show ?thesis by (auto simp: handler_inv_def inv_ctl_def inv_time_def)
next
  case Close
  from this assms(1) show ?thesis by (auto simp: handler_inv_def inv_ctl_def inv_time_def)
next
  case Since
  from this assms(1) show ?thesis by (auto simp: handler_inv_def inv_ctl_def inv_time_def)
next
  case Recv
  then have "errs s = hd (errs s) # tl (errs s)" by simp
  then have "mset (errs s) = mset (tl (errs s)) + {#hd (errs s)#}"
    by (metis mset.simps(2) add_mset_add_single)
  from this Recv assms(1) show ?thesis
    by (auto simp: handler_inv_def inv_ctl_def inv_time_def)
next
  case RangeEnd
  from this assms(1) show ?thesis by (auto simp: handler_inv_def inv_ctl_def inv_time_def)
next
  case Respond
  from this validate_pos [of "r e" "payload s"] assms(1) show ?thesis
    by (auto simp: handler_inv_def inv_ctl_def inv_time_def)
qed

lemma task_running:
  assumes "handler_inv e s" "k < length (tasks s)" "t_pc (tasks s ! k) \<noteq> Finished"
  shows "mpc s = Dispatch \<or> mpc s = Wait" "\<not> errs_closed s" "0 < wg s"
proof -
  from assms(2,3) have "0 < unfinished (tasks s)" by (rule unfinished_pos)
  with assms(1) show wg: "0 < wg s" by (simp add: handler_inv_def)
  show "\<not> errs_closed s"
  proof
    assume "errs_closed s"
    with assms(1) have "unfinished (tasks s) = 0" by (rule closed_finished)
    with assms(1) wg show False by (simp add: handler_inv_def)
  qed
  from assms(1) have ctl: "inv_ctl e s" by (simp add: handler_inv_def)
  show "mpc s = Dispatch \<or> mpc s = Wait"
  proof (cases "mpc s")
    case Returned
    with ctl wg show ?thesis by (cases "validate (r e)") (simp_all add: inv_ctl_def)
  qed (use ctl wg in \<open>simp_all add: inv_ctl_def\<close>)
qed

lemma panicked_at_Setup:
  assumes "handler_inv e s" "panicked s"
  shows "mpc s = Setup" "chan_limit e < Number (payload s)" "tasks s = []"
    "validate (r e) = Inr (payload s)" "w s = None"
proof -
  from assms(1) have ctl: "inv_ctl e s" by (simp add: handler_inv_def)
  from ctl [unfolded inv_ctl_def]
  have "panicked s \<longrightarrow> mpc s = Setup \<and> chan_limit e < Number (payload s)"
    by (rule conjunct1)
  with assms(2) show pc: "mpc s = Setup" and "chan_limit e < Number (payload s)"
    by blast+
  from ctl pc show "tasks s = []" "validate (r e) = Inr (payload s)" "w s = None"
    by (simp_all add: inv_ctl_def)
qed

lemma not_panicked_within:
  assumes "handler_inv e s" "within_limit e"
  shows "\<not> panicked s"
proof
  assume "panicked s"
  with assms(1) have "validate (r e) = Inr (payload s)" "chan_limit e < Number (payload s)"
    by (rule panicked_at_Setup)+
  with assms(2) show False by (auto simp: within_limit_def)
qed

lemma tasks_within:
  assumes "handler_inv e s" "tasks s \<noteq> []"
  shows "within_limit e" "\<not> panicked s"
proof -
  from assms have ctl: "inv_ctl e s" by (simp add: handler_inv_def)
  have "validate (r e) = Inr p \<Longrightarrow> Number p \<le> chan_limit e" for p
    using ctl assms(2) by (cases "mpc s") (auto simp: inv_ctl_def)
  then show "within_limit e" by (simp add: within_limit_def)
  with assms(1) show "\<not> panicked s" by (rule not_panicked_within)
qed

lemma task_ok_at [simp]: "task_ok b (t\<lparr>t_at := c\<rparr>) = task_ok b t"
  by (simp add: task_ok_def cong: task_pc.case_cong)

lemma ball_update: "\<forall>t\<in>set xs. P t \<Longrightarrow> P y \<Longrightarrow> \<forall>t\<in>set (xs[k := y]). P t"
  using set_update_subset_insert [of xs k y] by auto

lemma inv_ctl_fields:
  assumes "mpc s' = mpc s" "panicked s' = panicked s" "payload s' = payload s"
    "loop_i s' = loop_i s" "errorMessages s' = errorMessages s" "w s' = w s"
    "errs_cap s' = errs_cap s" "errs_closed s' = errs_closed s"
    "length (tasks s') = length (tasks s)"
    "mpc s = Dispatch \<or> mpc s = Wait"
    "inv_ctl e s" "collected_at s' = collected_at s"
  shows "inv_ctl e s'"
  using assms(10)
proof
  assume "mpc s = Dispatch"
  with assms show ?thesis by (simp add: inv_ctl_def)
next
  assume "mpc s = Wait"
  with assms show ?thesis by (simp add: inv_ctl_def)
qed

lemma inv_time_put:
  assumes "inv_time s" "mpc s = Dispatch \<or> mpc s = Wait"
    "mpc s' = mpc s" "startTime s' = startTime s" "clock s' = clock s"
    "tasks s' = (tasks s)[k := t\<lparr>t_at := clock s\<rparr>]"
    "collected_at s' = collected_at s" "timeTaken s' = timeTaken s"
  shows "inv_time s'"
proof -
  from assms(1,2) have start: "startTime s \<le> clock s"
    by (auto simp: inv_time_def)
  from assms(1) have "\<forall>t\<in>set (tasks s). startTime s \<le> t_at t \<and> t_at t \<le> clock s"
    by (simp add: inv_time_def)
  then have "\<forall>u\<in>set ((tasks s)[k := t\<lparr>t_at := clock s\<rparr>]).
      startTime s \<le> t_at u \<and> t_at u \<le> clock s"
    using start by (intro ball_update) simp_all
  moreover from assms(1)
  have "\<forall>c\<in>set (collected_at s). startTime s + timeTaken s \<le> c \<and> c \<le> clock s"
    by (simp add: inv_time_def)
  ultimately show ?thesis
    using assms(2-) start by (auto simp: inv_time_def)
qed

text \<open>A step of a goroutine that neither sends nor finishes.\<close>

lemma inv_put:
  assumes inv: "handler_inv e s" and k: "k < length (tasks s)"
    and run: "t_pc (tasks s ! k) \<noteq> Finished" "t_pc t \<noteq> Finished"
    and ok: "task_ok (backend e k) t"
    and sent: "t_sent t = t_sent (tasks s ! k)"
  shows "handler_inv e (put k t (s\<lparr>effects := fx\<rparr>))"
proof -
  let ?s = "put k t (s\<lparr>effects := fx\<rparr>)"
  note running = task_running [OF inv k run(1)]
  have tasks: "tasks ?s = (tasks s)[k := t\<lparr>t_at := clock s\<rparr>]"
    by (simp add: put_def)
  have "inv_ctl e ?s"
  proof (rule inv_ctl_fields [where s = s])
    show "mpc s = Dispatch \<or> mpc s = Wait" by (rule running(1))
    show "inv_ctl e s" using inv by (simp add: handler_inv_def)
  qed (simp_all add: put_def)
  moreover have "wg ?s = int (unfinished (tasks ?s))"
    using inv k run by (simp add: tasks unfinished_update_same handler_inv_def) (simp add: put_def)
  moreover have "\<forall>j<length (tasks ?s). task_ok (backend e j) (tasks ?s ! j)"
    unfolding tasks using inv ok k by (auto simp: nth_list_update handler_inv_def)
  moreover have "mset (errs ?s) + mset (errorMessages ?s) = mset (sent_msgs (tasks ?s))"
  proof -
    have "mset (sent_msgs (tasks ?s)) = mset (sent_msgs (tasks s)) + mset []"
      unfolding tasks using k sent by (intro sent_msgs_update) simp_all
    moreover from inv have "mset (errs s) + mset (errorMessages s) = mset (sent_msgs (tasks s))"
      by (simp add: handler_inv_def)
    moreover have "errs ?s = errs s" "errorMessages ?s = errorMessages s"
      by (simp_all add: put_def)
    ultimately show ?thesis by simp
  qed
  moreover have "inv_time ?s"
  proof (rule inv_time_put [where s = s and k = k and t = t])
    show "mpc s = Dispatch \<or> mpc s = Wait" by (rule running(1))
    show "inv_time s" using inv by (simp add: handler_inv_def)
  qed (simp_all add: put_def)
  ultimately show ?thesis by (simp add: handler_inv_def)
qed

text \<open>A send on \<open>errs\<close>.\<close>

lemma inv_send:
  assumes inv: "handler_inv e s" and k: "k < length (tasks s)"
    and run: "t_pc (tasks s ! k) \<noteq> Finished" "t_pc t \<noteq> Finished"
    and ok: "task_ok (backend e k) t"
    and sent: "t_sent t = t_sent (tasks s ! k) @ [msg]"
  shows "handler_inv e (put k t (s\<lparr>errs := errs s @ [msg]\<rparr>))"
proof -
  let ?s = "put k t (s\<lparr>errs := errs s @ [msg]\<rparr>)"
  note running = task_running [OF inv k run(1)]
  have tasks: "tasks ?s = (tasks s)[k := t\<lparr>t_at := clock s\<rparr>]"
    by (simp add: put_def)
  have errs: "errs ?s = errs s @ [msg]" "errorMessages ?s = errorMessages s" "wg ?s = wg s"
    by (simp_all add: put_def)
  have "inv_ctl e ?s"
  proof (rule inv_ctl_fields [where s = s])
    show "mpc s = Dispatch \<or> mpc s = Wait" by (rule running(1))
    show "inv_ctl e s" using inv by (simp add: handler_inv_def)
  qed (simp_all add: put_def)
  moreover have "wg ?s = int (unfinished (tasks ?s))"
    using inv k run by (simp add: tasks errs unfinished_update_same handler_inv_def)
  moreover have "\<forall>j<length (tasks ?s). task_ok (backend e j) (tasks ?s ! j)"
    unfolding tasks using inv ok k by (auto simp: nth_list_update handler_inv_def)
  moreover have "mset (errs ?s) + mset (errorMessages ?s) = mset (sent_msgs (tasks ?s))"
  proof -
    have "mset (sent_msgs (tasks ?s)) = mset (sent_msgs (tasks s)) + mset [msg]"
      unfolding tasks using k sent by (intro sent_msgs_update) simp_all
    moreover from inv have "mset (errs s) + mset (errorMessages s) = mset (sent_msgs (tasks s))"
      by (simp add: handler_inv_def)
    ultimately show ?thesis by (simp add: errs)
  qed
  moreover have "inv_time ?s"
  proof (rule inv_time_put [where s = s and k = k and t = t])
    show "mpc s = Dispatch \<or> mpc s = Wait" by (rule running(1))
    show "inv_time s" using inv by (simp add: handler_inv_def)
  qed (simp_all add: put_def)
  ultimately show ?thesis by (simp add: handler_inv_def)
qed

text \<open>The deferred \<^verbatim>\<open>wg.Done()\<close>.\<close>

lemma inv_done:
  assumes inv: "handler_inv e s" and k: "k < length (tasks s)"
    and run: "t_pc (tasks s ! k) \<noteq> Finished" "t_pc t = Finished"
    and ok: "task_ok (backend e k) t"
    and sent: "t_sent t = t_sent (tasks s ! k)"
  shows "handler_inv e (put k t (s\<lparr>wg := wg s - 1\<rparr>))"
proof -
  let ?s = "put k t (s\<lparr>wg := wg s - 1\<rparr>)"
  note running = task_running [OF inv k run(1)]
  have tasks: "tasks ?s = (tasks s)[k := t\<lparr>t_at := clock s\<rparr>]"
    by (simp add: put_def)
  have flds: "errs ?s = errs s" "errorMessages ?s = errorMessages s" "wg ?s = wg s - 1"
    by (simp_all add: put_def)
  have "inv_ctl e ?s"
  proof (rule inv_ctl_fields [where s = s])
    show "mpc s = Dispatch \<or> mpc s = Wait" by (rule running(1))
    show "inv_ctl e s" using inv by (simp add: handler_inv_def)
  qed (simp_all add: put_def)
  moreover have "wg ?s = int (unfinished (tasks ?s))"
  proof -
    have "Suc (unfinished ((tasks s)[k := t\<lparr>t_at := clock s\<rparr>])) = unfinished (tasks s)"
      using k run by (intro unfinished_update_done) simp_all
    moreover from inv have "wg s = int (unfinished (tasks s))" by (simp add: handler_inv_def)
    ultimately show ?thesis unfolding tasks flds by linarith
  qed
  moreover have "\<forall>j<length (tasks ?s). task_ok (backend e j) (tasks ?s ! j)"
    unfolding tasks using inv ok k by (auto simp: nth_list_update handler_inv_def)
  moreover have "mset (errs ?s) + mset (errorMessages ?s) = mset (sent_msgs (tasks ?s))"
  proof -
    have "mset (sent_msgs (tasks ?s)) = mset (sent_msgs (tasks s)) + mset []"
      unfolding tasks using k sent by (intro sent_msgs_update) simp_all
    moreover from inv have "mset (errs s) + mset (errorMessages s) = mset (sent_msgs (tasks s))"
      by (simp add: handler_inv_def)
    ultimately show ?thesis by (simp add: flds)
  qed
  moreover have "inv_time ?s"
  proof (rule inv_time_put [where s = s and k = k and t = t])
    show "mpc s = Dispatch \<or> mpc s = Wait" by (rule running(1))
    show "inv_time s" using inv by (simp add: handler_inv_def)
  qed (simp_all add: put_def)
  ultimately show ?thesis by (simp add: handler_inv_def)
qed

lemma inv_task:
  assumes inv: "handler_inv e s" and k: "k < length (tasks s)"
    and step: "task_step e k s = Some s'"
  shows "handler_inv e s'"
proof -
  from inv k have ok: "task_ok (backend e k) (tasks s ! k)"
    by (simp add: handler_inv_def)
  let ?t = "tasks s ! k"
  from step show ?thesis
  proof (cases rule: task_step_elim)
    case (Generate str)
    from Generate(2) have "int (length str) = 1024" "set str \<subseteq> set charset"
      by (rule generateRandomString_props)+
    with ok Generate(1) show ?thesis
      unfolding Generate(3) by (intro inv_put [OF inv k]) (simp_all add: task_ok_def)
  next
    case WriteString
    with ok show ?thesis
      unfolding WriteString(2)
      by (intro inv_put [OF inv k]) (simp_all add: task_ok_def split: option.splits)
  next
    case (SendWritePanic err)
    with task_running(2) [OF inv k] show ?thesis by simp
  next
    case (SendWrite err)
    with ok show ?thesis
      unfolding SendWrite(4)
      by (intro inv_send [OF inv k]) (simp_all add: task_ok_def outcome_def)
  next
    case BestEffortClose
    with ok show ?thesis
      unfolding BestEffortClose(2)
      by (intro inv_put [OF inv k]) (simp_all add: task_ok_def)
  next
    case CloseWriter
    with ok show ?thesis
      unfolding CloseWriter(2)
      by (intro inv_put [OF inv k]) (simp_all add: task_ok_def split: option.splits)
  next
    case (SendClosePanic err)
    with task_running(2) [OF inv k] show ?thesis by simp
  next
    case (SendClose err)
    with ok show ?thesis
      unfolding SendClose(4)
      by (intro inv_send [OF inv k]) (simp_all add: task_ok_def outcome_def)
  next
    case LogSuccess
    with ok show ?thesis
      unfolding LogSuccess(2)
      by (intro inv_put [OF inv k]) (simp_all add: task_ok_def outcome_def)
  next
    case WgPanic
    with task_running(3) [OF inv k] show ?thesis by simp
  next
    case WgDone
    with ok show ?thesis
      unfolding WgDone(3)
      by (intro inv_done [OF inv k]) (simp_all add: task_ok_def)
  qed
qed

lemma step_Main:
  "step e Main dt s = (if panicked s then None else main_step e (s\<lparr>clock := clock s + int dt\<rparr>))"
  by (simp add: step_def Let_def)

lemma step_Task:
  "step e (Task k) dt s =
     (if panicked s \<or> \<not> k < length (tasks s) then None
      else task_step e k (s\<lparr>clock := clock s + int dt\<rparr>))"
  by (simp add: step_def Let_def)

lemma inv_step:
  assumes "handler_inv e s" "step e th dt s = Some s'"
  shows "handler_inv e s'"
proof -
  let ?s = "s\<lparr>clock := clock s + int dt\<rparr>"
  from assms(1) have tick: "handler_inv e ?s" by (rule inv_tick)
  show ?thesis
  proof (cases th)
    case Main
    with assms(2) have "step e Main dt s = Some s'" by simp
    then have "main_step e ?s = Some s'"
      unfolding step_Main by (cases "panicked s") simp_all
    with tick show ?thesis by (rule inv_main)
  next
    case (Task k)
    with assms(2) have "step e (Task k) dt s = Some s'" by simp
    then have run: "\<not> (panicked s \<or> \<not> k < length (tasks s))"
      unfolding step_Task by (rule contrapos_pn) simp
    from run have k: "k < length (tasks ?s)" by simp
    from \<open>step e (Task k) dt s = Some s'\<close> have "task_step e k ?s = Some s'"
      unfolding step_Task by (simp only: run if_False)
    with tick k show ?thesis by (rule inv_task)
  qed
qed

lemma reachable_inv: "reachable e t0 s \<Longrightarrow> handler_inv e s"
  by (induction rule: reachable.induct) (auto intro: inv_init inv_step)

lemma exec_reachable:
  "reachable e t0 s \<Longrightarrow> exec e sched s = Some s' \<Longrightarrow> reachable e t0 s'"
proof (induction sched arbitrary: s)
  case Nil
  then show ?case by simp
next
  case (Cons a sched)
  obtain th dt where a: "a = (th, dt)" by (cases a)
  with Cons.prems(2) obtain s1 where s1: "step e th dt s = Some s1" "exec e sched s1 = Some s'"
    by (auto split: option.splits)
  from Cons.prems(1) s1(1) have "reachable e t0 s1" by (rule reachable_step)
  then show ?case using s1(2) by (rule Cons.IH)
qed

subsection \<open>No goroutine is ever blocked for good\<close>

lemma task_enabled:
  assumes inv: "handler_inv e s" and k: "k < length (tasks s)"
    and run: "t_pc (tasks s ! k) \<noteq> Finished"
  shows "\<exists>s'. task_step e k s = Some s'"
proof -
  from inv k have ok: "task_ok (backend e k) (tasks s ! k)"
    by (simp add: handler_inv_def)
  note running = task_running [OF inv k run]
  have free: "t_sent (tasks s ! k) = [] \<Longrightarrow> length (errs s) < errs_cap s"
    using inv k by (rule send_free)
  show ?thesis
  proof (cases "t_pc (tasks s ! k)")
    case Generate
    obtain str where "generateRandomString 1024 (content_bytes (backend e k)) = Some str"
      using generateRandomString_Some [of 1024] maxAlloc_1024 by auto
    with Generate show ?thesis by (simp add: task_step_def Let_def)
  next
    case (SendWriteErr err)
    with ok have "t_sent (tasks s ! k) = []" by (simp add: task_ok_def)
    with free running(2) SendWriteErr show ?thesis
      by (simp add: task_step_def Let_def send_def)
  next
    case (SendCloseErr err)
    with ok have "t_sent (tasks s ! k) = []" by (simp add: task_ok_def)
    with free running(2) SendCloseErr show ?thesis
      by (simp add: task_step_def Let_def send_def)
  next
    case Finished
    with run show ?thesis by simp
  qed (simp_all add: task_step_def Let_def)
qed

lemma main_enabled:
  assumes inv: "handler_inv e s" and "mpc s \<noteq> Returned" "mpc s = Wait \<longrightarrow> wg s = 0"
  shows "\<exists>s'. main_step e s = Some s'"
proof (cases "mpc s")
  case Validate
  then show ?thesis by (cases "validate (r e)") (simp_all add: main_step_def)
next
  case RangeErrs
  with inv have "errs_closed s" by (simp add: handler_inv_def inv_ctl_def)
  with RangeErrs show ?thesis by (cases "errs s") (simp_all add: main_step_def)
next
  case Returned
  with assms(2) show ?thesis by simp
qed (use assms(3) in \<open>simp_all add: main_step_def\<close>)

lemma progress:
  assumes inv: "handler_inv e s" and "mpc s \<noteq> Returned" and np: "\<not> panicked s"
  shows "\<exists>th. \<forall>dt. \<exists>s'. step e th dt s = Some s'"
proof (cases "mpc s = Wait \<and> wg s \<noteq> 0")
  case True
  with inv have "0 < unfinished (tasks s)" by (simp add: handler_inv_def)
  then obtain k where k: "k < length (tasks s)" "t_pc (tasks s ! k) \<noteq> Finished"
    using unfinished_ex by blast
  have "\<exists>s'. step e (Task k) dt s = Some s'" for dt
  proof -
    let ?s = "s\<lparr>clock := clock s + int dt\<rparr>"
    from inv have "handler_inv e ?s" by (rule inv_tick)
    moreover have "k < length (tasks ?s)" "t_pc (tasks ?s ! k) \<noteq> Finished"
      using k by simp_all
    ultimately have "\<exists>s'. task_step e k ?s = Some s'" by (rule task_enabled)
    moreover note np
    ultimately show ?thesis using k(1) by (simp add: step_Task)
  qed
  then show ?thesis by blast
next
  case False
  have "\<exists>s'. step e Main dt s = Some s'" for dt
  proof -
    let ?s = "s\<lparr>clock := clock s + int dt\<rparr>"
    from inv have "handler_inv e ?s" by (rule inv_tick)
    moreover have "mpc ?s \<noteq> Returned" "mpc ?s = Wait \<longrightarrow> wg ?s = 0"
      using assms(2) False by simp_all
    ultimately have "\<exists>s'. main_step e ?s = Some s'" by (rule main_enabled)
    moreover note np
    ultimately show ?thesis by (simp add: step_Main)
  qed
  then show ?thesis by blast
qed

subsection \<open>Every step uses up the measure\<close>

lemma tasks_weight_update:
  "k < length ts \<Longrightarrow>
   tasks_weight (ts[k := t]) + task_weight (t_pc (ts ! k)) = tasks_weight ts + task_weight (t_pc t)"
proof (induction ts arbitrary: k)
  case Nil
  then show ?case by simp
next
  case (Cons a ts)
  show ?case
  proof (cases k)
    case 0
    then show ?thesis by (simp add: tasks_weight_def)
  next
    case (Suc j)
    with Cons.prems have "tasks_weight (ts[j := t]) + task_weight (t_pc (ts ! j))
        = tasks_weight ts + task_weight (t_pc t)"
      by (intro Cons.IH) simp
    with Suc show ?thesis by (simp add: tasks_weight_def)
  qed
qed

lemma steps_left_put:
  assumes "k < length (tasks s)"
    "task_weight (t_pc t) + length (errs s') < task_weight (t_pc (tasks s ! k)) + length (errs s)"
    "mpc s' = mpc s" "tasks s' = tasks s" "panicked s' = panicked s"
  shows "steps_left e (put k t s') < steps_left e s"
proof -
  have "tasks_weight ((tasks s)[k := t\<lparr>t_at := clock s'\<rparr>]) + task_weight (t_pc (tasks s ! k))
      = tasks_weight (tasks s) + task_weight (t_pc (t\<lparr>t_at := clock s'\<rparr>))"
    using assms(1) by (rule tasks_weight_update)
  with assms(2-) show ?thesis
    by (simp add: steps_left_def put_def)
qed

lemma main_step_decreases:
  assumes inv: "handler_inv e s" and step: "main_step e s = Some s'" and np: "\<not> panicked s"
  shows "steps_left e s' < steps_left e s"
  using step
proof (cases rule: main_step_elim)
  case Go
  with inv have "validate (r e) = Inr (payload s)" "loop_i s = int (length (tasks s))"
    by (simp_all add: handler_inv_def inv_ctl_def)
  with Go(2) have "length (tasks s) < requested e"
    by (simp add: requested_def)
  with Go(3) show ?thesis
    by (simp add: steps_left_def tasks_weight_def new_task_def)
next
  case ClosePanic
  with inv show ?thesis by (simp add: handler_inv_def inv_ctl_def)
next
  case SetupPanic
  with np show ?thesis by (simp add: steps_left_def)
next
  case Recv
  then show ?thesis by (cases "errs s") (simp_all add: steps_left_def)
qed (simp_all add: steps_left_def)

lemma task_step_decreases:
  assumes inv: "handler_inv e s" and k: "k < length (tasks s)"
    and step: "task_step e k s = Some s'"
  shows "steps_left e s' < steps_left e s"
  using step
proof (cases rule: task_step_elim)
  case (Generate str)
  then show ?thesis
    unfolding Generate(3) by (intro steps_left_put [OF k]) simp_all
next
  case WriteString
  then show ?thesis
    unfolding WriteString(2) by (intro steps_left_put [OF k]) (simp_all split: option.splits)
next
  case (SendWritePanic err)
  with task_running(2) [OF inv k] show ?thesis by simp
next
  case (SendWrite err)
  then show ?thesis
    unfolding SendWrite(4) by (intro steps_left_put [OF k]) simp_all
next
  case BestEffortClose
  then show ?thesis
    unfolding BestEffortClose(2) by (intro steps_left_put [OF k]) simp_all
next
  case CloseWriter
  then show ?thesis
    unfolding CloseWriter(2) by (intro steps_left_put [OF k]) (simp_all split: option.splits)
next
  case (SendClosePanic err)
  with task_running(2) [OF inv k] show ?thesis by simp
next
  case (SendClose err)
  then show ?thesis
    unfolding SendClose(4) by (intro steps_left_put [OF k]) simp_all
next
  case LogSuccess
  then show ?thesis
    unfolding LogSuccess(2) by (intro steps_left_put [OF k]) simp_all
next
  case WgPanic
  with task_running(3) [OF inv k] show ?thesis by simp
next
  case WgDone
  then show ?thesis
    unfolding WgDone(3) by (intro steps_left_put [OF k]) simp_all
qed

lemma steps_left_clock: "steps_left e (s\<lparr>clock := c\<rparr>) = steps_left e s"
  by (simp add: steps_left_def)

lemma step_decreases:
  assumes "handler_inv e s" "step e th dt s = Some s'"
  shows "steps_left e s' < steps_left e s"
proof -
  let ?s = "s\<lparr>clock := clock s + int dt\<rparr>"
  from assms(1) have tick: "handler_inv e ?s" by (rule inv_tick)
  have "steps_left e s' < steps_left e ?s"
  proof (cases th)
    case Main
    with assms(2) have "step e Main dt s = Some s'" by simp
    then have "main_step e ?s = Some s'" "\<not> panicked ?s"
      unfolding step_Main by (cases "panicked s"; simp)+
    with tick show ?thesis by (rule main_step_decreases)
  next
    case (Task k)
    with assms(2) have "step e (Task k) dt s = Some s'" by simp
    then have run: "\<not> (panicked s \<or> \<not> k < length (tasks s))"
      unfolding step_Task by (rule contrapos_pn) simp
    from run have k: "k < length (tasks ?s)" by simp
    from \<open>step e (Task k) dt s = Some s'\<close> have "task_step e k ?s = Some s'"
      unfolding step_Task by (simp only: run if_False)
    with tick k show ?thesis by (rule task_step_decreases)
  qed
  then show ?thesis by (simp only: steps_left_clock)
qed


lemma can_return:
  assumes within: "within_limit e"
  shows "handler_inv e s \<Longrightarrow> \<exists>sched s'. exec e sched s = Some s' \<and> mpc s' = Returned"
proof (induction "steps_left e s" arbitrary: s rule: less_induct)
  case less
  show ?case
  proof (cases "mpc s = Returned")
    case True
    then have "exec e [] s = Some s \<and> mpc s = Returned" by simp
    then show ?thesis by blast
  next
    case False
    from less.prems within have "\<not> panicked s" by (rule not_panicked_within)
    with less.prems False obtain th s1 where s1: "step e th 0 s = Some s1"
      using progress [of e s] by blast
    with less.prems have "steps_left e s1 < steps_left e s" "handler_inv e s1"
      by (rule step_decreases, rule inv_step)
    then obtain sched s' where "exec e sched s1 = Some s'" "mpc s' = Returned"
      using less.hyps by blast
    with s1 have "exec e ((th, 0) # sched) s = Some s' \<and> mpc s' = Returned" by simp
    then show ?thesis by blast
  qed
qed

subsection \<open>The object key\<close>

lemma hex_digit_mem: "d < 16 \<Longrightarrow> hex_digit d \<in> set ''0123456789abcdef''"
  unfolding hex_digit_def by (rule nth_mem) simp

lemma set_hex_byte: "set (hex_byte x) \<subseteq> set ''0123456789abcdef''"
proof -
  have "unat x < 256" using unsigned_less [of x] by simp
  then have "unat x div 16 < 16" "unat x mod 16 < 16" by simp_all
  then have "hex_digit (unat x div 16) \<in> set ''0123456789abcdef''"
    "hex_digit (unat x mod 16) \<in> set ''0123456789abcdef''"
    by (simp_all only: hex_digit_mem)
  then show ?thesis unfolding hex_byte_def by simp
qed

lemma length_hex_byte: "length (hex_byte x) = 2"
  unfolding hex_byte_def by simp

lemma Sprintf_x_Cons: "Sprintf_x (x # bs) = hex_byte x @ Sprintf_x bs"
  by (simp add: Sprintf_x_def)

lemma length_Sprintf_x: "length (Sprintf_x bs) = 2 * length bs"
proof (induction bs)
  case Nil
  show ?case by (simp add: Sprintf_x_def)
next
  case (Cons x bs)
  then show ?case by (simp add: Sprintf_x_Cons length_hex_byte)
qed

lemma set_Sprintf_x: "set (Sprintf_x bs) \<subseteq> set ''0123456789abcdef''"
proof (induction bs)
  case Nil
  show ?case by (simp add: Sprintf_x_def)
next
  case (Cons x bs)
  with set_hex_byte [of x] show ?case
    unfolding Sprintf_x_Cons set_append by (rule Un_least)
qed

lemma digit_char_mem: "d < 10 \<Longrightarrow> digit_char d \<in> set ''0123456789''"
proof -
  assume "d < 10"
  then consider "d = 0" | "d = 1" | "d = 2" | "d = 3" | "d = 4" | "d = 5" | "d = 6" | "d = 7"
    | "d = 8" | "d = 9" by atomize_elim arith
  then show ?thesis by cases (hypsubst, code_simp)+
qed

declare decimal.simps [simp del]

lemma set_decimal: "set (decimal n) \<subseteq> set ''0123456789''"
proof (induction n rule: decimal.induct)
  case (1 n)
  show ?case
  proof (cases "n < 10")
    case True
    then have "decimal n = [digit_char n]" by (subst decimal.simps) simp
    with True digit_char_mem [of n] show ?thesis by simp
  next
    case False
    then have "decimal n = decimal (n div 10) @ [digit_char (n mod 10)]"
      by (subst decimal.simps) simp
    moreover from False have "set (decimal (n div 10)) \<subseteq> set ''0123456789''" by (rule "1.IH")
    moreover have "digit_char (n mod 10) \<in> set ''0123456789''" by (rule digit_char_mem) simp
    ultimately show ?thesis by simp
  qed
qed

lemma slash_appendInt: "CHR ''/'' \<notin> set (appendInt x width)"
proof -
  have "CHR ''/'' \<notin> set ''0123456789''" by simp
  with set_decimal [of "nat \<bar>x\<bar>"] have "CHR ''/'' \<notin> set (decimal (nat \<bar>x\<bar>))" by blast
  then show ?thesis by (simp add: appendInt_def Let_def)
qed

lemma slash_Format: "CHR ''/'' \<notin> set (Format_20060102T150405 t)"
  by (simp add: Format_20060102T150405_def Let_def slash_appendInt split: prod.splits)

lemma hex_value_digit: "d < 16 \<Longrightarrow> hex_value (hex_digit d) = d"
proof -
  assume "d < 16"
  then consider "d = 0" | "d = 1" | "d = 2" | "d = 3" | "d = 4" | "d = 5" | "d = 6" | "d = 7"
    | "d = 8" | "d = 9" | "d = 10" | "d = 11" | "d = 12" | "d = 13" | "d = 14" | "d = 15"
    by atomize_elim arith
  then show ?thesis by cases (hypsubst, code_simp)+
qed

lemma unhex_hex_byte: "unhex (hex_byte x @ cs) = x # unhex cs"
proof -
  have "unat x < 256" using unsigned_less [of x] by simp
  then have "unat x div 16 < 16" "unat x mod 16 < 16" by simp_all
  then have "hex_value (hex_digit (unat x div 16)) = unat x div 16"
    "hex_value (hex_digit (unat x mod 16)) = unat x mod 16"
    by (simp_all only: hex_value_digit)
  moreover have "(of_nat (16 * (unat x div 16) + unat x mod 16) :: byte) = x"
    by simp
  ultimately show ?thesis by (simp add: hex_byte_def)
qed

lemma unhex_Sprintf_x: "unhex (Sprintf_x bs) = bs"
proof (induction bs)
  case Nil
  show ?case by (simp add: Sprintf_x_def)
next
  case (Cons x bs)
  then show ?case by (simp add: Sprintf_x_Cons unhex_hex_byte)
qed

lemma folder_segment_append:
  "CHR ''/'' \<notin> set xs \<Longrightarrow> folder_segment (xs @ ''/'' @ ys) = xs"
  unfolding folder_segment_def by (induction xs) auto

lemma file_segment_append:
  "CHR ''/'' \<notin> set xs \<Longrightarrow> file_segment (xs @ ''/'' @ ys) = ys"
  unfolding file_segment_def by (induction xs) auto

lemma digit_char_inj: "a < 10 \<Longrightarrow> b < 10 \<Longrightarrow> digit_char a = digit_char b \<Longrightarrow> a = b"
  by (simp add: digit_char_def char_of_eq_iff take_bit_eq_mod)

lemma two_digits_inj:
  assumes "0 \<le> x" "x < 100" "0 \<le> y" "y < 100" "two_digits x = two_digits y"
  shows "x = y"
proof -
  from assms(5) have "digit_char (nat x div 10) = digit_char (nat y div 10)"
    "digit_char (nat x mod 10) = digit_char (nat y mod 10)"
    by (simp_all add: two_digits_def)
  moreover from assms(2,4) have "nat x div 10 < 10" "nat y div 10 < 10" by simp_all
  moreover have "nat x mod 10 < 10" "nat y mod 10 < 10" by simp_all
  ultimately have "nat x div 10 = nat y div 10" "nat x mod 10 = nat y mod 10"
    by (simp_all only: digit_char_inj)
  then have "nat x = nat y" by (metis div_mult_mod_eq)
  with assms(1,3) show ?thesis by simp
qed

lemma appendInt_two_digits:
  assumes "0 \<le> x" "x < 100"
  shows "appendInt x 2 = two_digits x"
proof (cases "x < 10")
  case True
  with assms have small: "nat x < 10" by arith
  then have "decimal (nat x) = [digit_char (nat x)]" by (subst decimal.simps) simp
  moreover from small have "nat x div 10 = 0" "nat x mod 10 = nat x" by simp_all
  moreover have "digit_char 0 = CHR ''0''" by code_simp
  ultimately show ?thesis using assms by (simp add: appendInt_def two_digits_def)
next
  case False
  with assms have "nat x div 10 < 10" "\<not> nat x < 10" by arith+
  then have "decimal (nat x) = [digit_char (nat x div 10), digit_char (nat x mod 10)]"
    by (subst decimal.simps, simp, subst decimal.simps, simp)
  then show ?thesis using assms by (simp add: appendInt_def two_digits_def)
qed

lemma Format_time_of_day:
  "\<exists>date. Format_20060102T150405 t = date @ ''T'' @ hhmmss (unix_sec t + zone_offset t)"
proof -
  define wall where "wall = unix_sec t + zone_offset t"
  define secs where "secs = wall mod 86400"
  have range: "0 \<le> secs" "secs < 86400" by (simp_all add: secs_def)
  then have h: "0 \<le> secs div 3600" "secs div 3600 < 100" by simp_all
  have m: "0 \<le> secs mod 3600 div 60" "secs mod 3600 div 60 < 100" by simp_all
  have s: "0 \<le> secs mod 60" "secs mod 60 < 100" by simp_all
  have same: "secs mod 3600 = wall mod 3600" "secs mod 60 = wall mod 60"
    unfolding secs_def by (simp_all add: mod_mod_cancel)
  have "Format_20060102T150405 t =
      (case civil_from_days (wall div 86400) of (year, month, day) \<Rightarrow>
         appendInt year 4 @ appendInt month 2 @ appendInt day 2)
      @ ''T'' @ appendInt (secs div 3600) 2 @ appendInt (secs mod 3600 div 60) 2
      @ appendInt (secs mod 60) 2"
    by (simp add: Format_20060102T150405_def Let_def wall_def secs_def split: prod.splits)
  also have "appendInt (secs div 3600) 2 @ appendInt (secs mod 3600 div 60) 2
      @ appendInt (secs mod 60) 2 = hhmmss wall"
  proof -
    have "appendInt (secs div 3600) 2 = two_digits (secs div 3600)"
      "appendInt (secs mod 3600 div 60) 2 = two_digits (secs mod 3600 div 60)"
      "appendInt (secs mod 60) 2 = two_digits (secs mod 60)"
      using h m s by (simp_all only: appendInt_two_digits)
    then show ?thesis unfolding hhmmss_def same by (simp only: secs_def)
  qed
  finally show ?thesis unfolding wall_def by blast
qed

lemma length_hhmmss: "length (hhmmss wall) = 6"
  by (simp add: hhmmss_def two_digits_def)

lemma seconds_of_day:
  "x mod 86400 = 3600 * (x mod 86400 div 3600) + 60 * (x mod 3600 div 60) + x mod 60"
  for x :: int
proof -
  have "x mod 86400 = 3600 * (x mod 86400 div 3600) + x mod 86400 mod 3600"
    by (rule mult_div_mod_eq [symmetric])
  also have "x mod 86400 mod 3600 = x mod 3600" by (simp add: mod_mod_cancel)
  also have "x mod 3600 = 60 * (x mod 3600 div 60) + x mod 3600 mod 60"
    by (rule mult_div_mod_eq [symmetric])
  also have "x mod 3600 mod 60 = x mod 60" by (simp add: mod_mod_cancel)
  finally show ?thesis by simp
qed

lemma hhmmss_inj:
  assumes "hhmmss a = hhmmss b"
  shows "a mod 86400 = b mod 86400"
proof -
  from assms have eq: "two_digits (a mod 86400 div 3600) = two_digits (b mod 86400 div 3600)"
    "two_digits (a mod 3600 div 60) = two_digits (b mod 3600 div 60)"
    "two_digits (a mod 60) = two_digits (b mod 60)"
    by (simp_all add: hhmmss_def two_digits_def)
  have h: "a mod 86400 div 3600 = b mod 86400 div 3600"
    by (rule two_digits_inj [OF _ _ _ _ eq(1)]) simp_all
  have m: "a mod 3600 div 60 = b mod 3600 div 60"
    by (rule two_digits_inj [OF _ _ _ _ eq(2)]) simp_all
  have s: "a mod 60 = b mod 60"
    by (rule two_digits_inj [OF _ _ _ _ eq(3)]) simp_all
  have "a mod 86400 = 3600 * (a mod 86400 div 3600) + 60 * (a mod 3600 div 60) + a mod 60"
    by (rule seconds_of_day)
  also have "\<dots> = 3600 * (b mod 86400 div 3600) + 60 * (b mod 3600 div 60) + b mod 60"
    unfolding h m s by (rule refl)
  also have "\<dots> = b mod 86400" by (rule seconds_of_day [symmetric])
  finally show ?thesis .
qed

lemma Format_differs:
  assumes "zone_offset t mod 86400 \<noteq> 0"
  shows "Format_20060102T150405 t \<noteq> Format_20060102T150405 (UTC t)"
proof
  assume eq: "Format_20060102T150405 t = Format_20060102T150405 (UTC t)"
  obtain d1 where d1: "Format_20060102T150405 t = d1 @ ''T'' @ hhmmss (unix_sec t + zone_offset t)"
    using Format_time_of_day by blast
  obtain d2 where d2: "Format_20060102T150405 (UTC t) = d2 @ ''T'' @ hhmmss (unix_sec t)"
    using Format_time_of_day [of "UTC t"] by (auto simp: UTC_def unix_sec_def)
  have "length (hhmmss (unix_sec t + zone_offset t)) = length (hhmmss (unix_sec t))"
    by (simp only: length_hhmmss)
  then have "length (d1 @ ''T'') = length (d2 @ ''T'')
      \<or> length (hhmmss (unix_sec t + zone_offset t)) = length (hhmmss (unix_sec t))"
    by (rule disjI2)
  from append_eq_append_conv [OF this] eq d1 d2
  have "hhmmss (unix_sec t + zone_offset t) = hhmmss (unix_sec t)"
    by simp
  then have "(unix_sec t + zone_offset t) mod 86400 = unix_sec t mod 86400"
    by (rule hhmmss_inj)
  then have "86400 dvd (unix_sec t + zone_offset t) - unix_sec t"
    by (simp only: mod_eq_dvd_iff)
  then have "zone_offset t mod 86400 = 0" by simp
  with assms show False by simp
qed

subsection \<open>The example run\<close>

lemmas run_simps = step_def main_step_def task_step_def put_def send_def init_def demo_env_def
  demo_sched_def validate_def respond_def new_task_def Let_def generateRandomString_eq maxAlloc_1024 run_def

lemma demo_exec: "exec demo_env demo_sched (init 100) = Some demo_final"
proof -
  have "\<exists>s. exec demo_env demo_sched (init 100) = Some s"
    by (simp add: run_simps)
  then show ?thesis by (auto simp: demo_final_def run_def)
qed

lemma demo_reachable: "reachable demo_env 100 demo_final"
  using reachable_init demo_exec by (rule exec_reachable)

lemma demo_final_mpc: "mpc demo_final = Returned"
  by (simp add: demo_final_def run_simps)

lemma demo_final_pcs: "map t_pc (tasks demo_final) = [Finished, Finished]"
  by (simp add: demo_final_def run_simps)

lemma demo_validate: "validate (r demo_env) = Inr \<lparr>Number = 2\<rparr>"
  by (simp add: demo_env_def validate_def)

lemma demo_rejected_validate:
  "validate (r demo_rejected) =
     Inl \<lparr>status = 400, body = Text ''The 'number' value must be a positive integer''\<rparr>"
  by (simp add: demo_rejected_def demo_env_def validate_def)

lemmas mid_simps = step_def main_step_def task_step_def put_def send_def init_def demo_env_def
  demo_all_fail_def demo_mid_sched_def demo_fail_sched_def validate_def respond_def
  new_task_def Let_def generateRandomString_eq maxAlloc_1024 run_def





lemma demo_answered_step: "step demo_rejected Main 5 (init 0) = Some demo_answered"
  by (simp add: demo_answered_def run_def step_Main main_step_def init_def
      demo_rejected_validate)

lemma demo_answered_reachable: "reachable demo_rejected 0 demo_answered"
  using reachable_init demo_answered_step by (rule reachable_step)

lemma demo_fail_exec: "exec demo_all_fail demo_fail_sched (init 100) = Some demo_fail_final"
proof -
  have "\<exists>s. exec demo_all_fail demo_fail_sched (init 100) = Some s"
    by (simp add: mid_simps)
  then show ?thesis by (auto simp: demo_fail_final_def run_def)
qed

lemma demo_fail_reachable: "reachable demo_all_fail 100 demo_fail_final"
  using reachable_init demo_fail_exec by (rule exec_reachable)

lemma demo_fail_pcs: "map t_pc (tasks demo_fail_final) = [Finished, Finished]"
  by (simp add: demo_fail_final_def mid_simps)

lemma demo_fail_mpc: "mpc demo_fail_final = Returned"
  by (simp add: demo_fail_final_def mid_simps)







subsection \<open>What holds when the handler has returned\<close>

lemma sent_msgs_count:
  "\<forall>t\<in>set ts. length (t_sent t) \<le> 1 \<Longrightarrow>
   length (sent_msgs ts) + length (filter (\<lambda>t. t_sent t = []) ts) = length ts"
proof (induction ts)
  case Nil
  then show ?case by simp
next
  case (Cons a ts)
  then have "length (t_sent a) \<le> 1" by simp
  then have "length (t_sent a) = (if t_sent a = [] then 0 else 1)"
    by (cases "t_sent a") auto
  with Cons show ?case by (simp add: sent_msgs_Cons)
qed

lemma inv_sent_le1:
  assumes "handler_inv e s"
  shows "\<forall>t\<in>set (tasks s). length (t_sent t) \<le> 1"
proof
  fix t assume "t \<in> set (tasks s)"
  then obtain i where "i < length (tasks s)" "t = tasks s ! i"
    by (auto simp: in_set_conv_nth)
  with assms have "task_ok (backend e i) t" by (simp add: handler_inv_def)
  then show "length (t_sent t) \<le> 1" by (rule task_ok_sent_length)
qed

lemma returned_accepted:
  assumes "handler_inv e s" "mpc s = Returned" "validate (r e) = Inr p"
  shows "payload s = p" "int (length (tasks s)) = Number p" "wg s = 0" "errs s = []"
    "errs_closed s" "errs_cap s = nat (Number p)"
    "w s = Some (respond p (timeTaken s) (errorMessages s))"
  using assms by (simp_all add: handler_inv_def inv_ctl_def)

lemma returned_rejected:
  assumes "handler_inv e s" "mpc s = Returned" "validate (r e) = Inl resp"
  shows "w s = Some resp" "tasks s = []" "effects s = []" "errs s = []" "errorMessages s = []"
  using assms by (simp_all add: handler_inv_def inv_ctl_def)

lemma all_finished:
  assumes "handler_inv e s" "wg s = 0"
  shows "\<forall>t\<in>set (tasks s). t_pc t = Finished"
proof -
  from assms have "unfinished (tasks s) = 0" by (simp add: handler_inv_def)
  then show ?thesis by (simp add: unfinished_0)
qed

lemma finished_outcome:
  assumes "handler_inv e s" "k < length (tasks s)" "t_pc (tasks s ! k) = Finished"
  shows "t_sent (tasks s ! k) = outcome (backend e k) (objectKey (tasks s ! k))"
    "t_closes (tasks s ! k) = 1"
proof -
  from assms(1,2) have "task_ok (backend e k) (tasks s ! k)" by (simp add: handler_inv_def)
  with assms(3) show "t_sent (tasks s ! k) = outcome (backend e k) (objectKey (tasks s ! k))"
    "t_closes (tasks s ! k) = 1"
    by (simp_all add: task_ok_def)
qed

subsection \<open>Validation\<close>


lemma validate_Inl:
  "validate rq = Inl resp \<Longrightarrow>
   status resp = (if Method rq \<noteq> ''POST'' then 405 else 400) \<and>
   (Method rq \<noteq> ''POST'' \<or> (\<exists>err. Decode rq = Inl err)
      \<or> (\<exists>p. Decode rq = Inr p \<and> Number p \<le> 0))"
  by (cases "Decode rq") (auto simp: validate_def split: if_splits)

lemma rejected_validate:
  assumes "Method rq \<noteq> ''POST'' \<or> (\<exists>err. Decode rq = Inl err)
      \<or> (\<exists>p. Decode rq = Inr p \<and> Number p \<le> 0)"
  shows "\<exists>resp. validate rq = Inl resp"
  using assms by (cases "Decode rq") (auto simp: validate_def)

subsection \<open>Steps of single goroutines\<close>


lemma no_step_when_returned:
  assumes "mpc s = Returned" "\<forall>t\<in>set (tasks s). t_pc t = Finished"
  shows "step e th dt s = None"
proof (cases th)
  case Main
  with assms(1) show ?thesis by (simp add: step_Main main_step_def)
next
  case (Task k)
  show ?thesis
  proof (cases "k < length (tasks s)")
    case True
    with assms(2) have "t_pc (tasks s ! k) = Finished" by simp
    with True Task show ?thesis by (simp add: step_Task task_step_def)
  next
    case False
    with Task show ?thesis by (simp add: step_Task)
  qed
qed


subsection \<open>Runs that finish\<close>

lemma main_step_tasks:
  assumes "main_step e s = Some s'"
  shows "length (tasks s) \<le> length (tasks s')"
    "\<forall>k<length (tasks s). tasks s' ! k = tasks s ! k"
  using assms by (cases rule: main_step_elim; simp add: nth_append)+

lemma task_step_tasks:
  assumes "task_step e k s = Some s'"
  shows "length (tasks s') = length (tasks s)"
  using assms by (cases rule: task_step_elim) (simp_all add: put_def)

lemma step_tasks_length:
  assumes "step e th dt s = Some s'"
  shows "length (tasks s) \<le> length (tasks s')"
proof (cases th)
  case Main
  with assms have "step e Main dt s = Some s'" by simp
  then have "main_step e (s\<lparr>clock := clock s + int dt\<rparr>) = Some s'"
    unfolding step_Main by (cases "panicked s") simp_all
  from main_step_tasks(1) [OF this] show ?thesis by simp
next
  case (Task k)
  with assms have st: "step e (Task k) dt s = Some s'" by simp
  then have run: "\<not> (panicked s \<or> \<not> k < length (tasks s))"
    unfolding step_Task by (rule contrapos_pn) simp
  from st have "task_step e k (s\<lparr>clock := clock s + int dt\<rparr>) = Some s'"
    unfolding step_Task by (simp only: run if_False)
  from task_step_tasks [OF this] show ?thesis by simp
qed

lemma exec_tasks_length:
  "exec e sched s = Some s' \<Longrightarrow> length (tasks s) \<le> length (tasks s')"
proof (induction sched arbitrary: s)
  case Nil
  then show ?case by simp
next
  case (Cons a sched)
  obtain th dt where a: "a = (th, dt)" by (cases a)
  with Cons.prems obtain s1 where s1: "step e th dt s = Some s1" "exec e sched s1 = Some s'"
    by (auto split: option.splits)
  from s1(1) have "length (tasks s) \<le> length (tasks s1)" by (rule step_tasks_length)
  also from s1(2) have "\<dots> \<le> length (tasks s')" by (rule Cons.IH)
  finally show ?case .
qed

lemma can_finish:
  assumes "handler_inv e s" and within: "within_limit e"
  shows "\<exists>sched s'. exec e sched s = Some s' \<and> mpc s' = Returned
    \<and> length (tasks s) \<le> length (tasks s') \<and> (\<forall>t\<in>set (tasks s'). t_pc t = Finished)"
proof -
  from assms(1) obtain sched s' where run: "exec e sched s = Some s'" "mpc s' = Returned"
    using can_return [OF within] by blast
  have inv': "handler_inv e s'"
    using assms(1) run(1)
  proof (induction sched arbitrary: s)
    case Nil
    then show ?case by simp
  next
    case (Cons a sched)
    obtain th dt where a: "a = (th, dt)" by (cases a)
    with Cons.prems(2) obtain s1 where s1: "step e th dt s = Some s1" "exec e sched s1 = Some s'"
      by (auto split: option.splits)
    from Cons.prems(1) s1(1) have "handler_inv e s1" by (rule inv_step)
    then show ?case using s1(2) by (rule Cons.IH)
  qed
  have "wg s' = 0"
  proof (cases "validate (r e)")
    case (Inl resp)
    with inv' run(2) show ?thesis by (simp add: handler_inv_def inv_ctl_def)
  next
    case (Inr p)
    with inv' run(2) show ?thesis by (simp add: handler_inv_def inv_ctl_def)
  qed
  with inv' have "\<forall>t\<in>set (tasks s'). t_pc t = Finished" by (rule all_finished)
  moreover from run(1) have "length (tasks s) \<le> length (tasks s')" by (rule exec_tasks_length)
  ultimately show ?thesis using run by blast
qed

section \<open>The claims\<close>




text \<open>
  C4, as stated: every generated object key is the current UTC time formatted at second
  granularity, joined by a slash to the lowercase hexadecimal encoding of 16 random bytes.
  generateObjectKey formats \<^verbatim>\<open>time.Now()\<close> as it is, in the local time zone of the process:
  one hour east of UTC, at the Unix epoch, the folder is 19700101T010000 and not the UTC
  time 19700101T000000.
\<close>

theorem generateObjectKey_utc_counterexample:
  "generateObjectKey \<lparr>unix_nano = 0, zone_offset = 3600\<rparr> (replicate 16 171)
     = ''19700101T010000/abababababababababababababababab''
   \<and> Format_20060102T150405 (UTC \<lparr>unix_nano = 0, zone_offset = 3600\<rparr>) @ ''/''
         @ Sprintf_x (rand_Read (replicate 16 171) (make_bytes 16))
     = ''19700101T000000/abababababababababababababababab''
   \<and> generateObjectKey \<lparr>unix_nano = 0, zone_offset = 3600\<rparr> (replicate 16 171)
     \<noteq> Format_20060102T150405 (UTC \<lparr>unix_nano = 0, zone_offset = 3600\<rparr>) @ ''/''
         @ Sprintf_x (rand_Read (replicate 16 171) (make_bytes 16))"
  by code_simp

text \<open>
  C4, amended: every generated object key is the current time in the local time zone of the
  process (\<^verbatim>\<open>time.Now()\<close> as it is, not converted to UTC) formatted at second granularity
  (the folder segment, the part before the first slash), joined by a slash to the lowercase
  hexadecimal encoding of the 16 bytes of the buffer given to the random source (the file
  segment); these are the first 16 bytes the source delivers when it delivers that many.
  In detail: the folder ends with the letter T and the time of day hhmmss of the wall clock
  of the local zone, which is the Unix time in seconds plus the offset of the zone; it is
  the folder that UTC shows that many seconds later; two instants of the same second in
  the same zone give the same folder; the folder is the UTC one when the offset is zero and
  is not the UTC one when the offset is not a whole number of days; the file segment is 32
  characters from 0-9 and a-f that decode to the 16 bytes.
\<close>

theorem generateObjectKey_local_time:
  "generateObjectKey t delivered
     = folder_segment (generateObjectKey t delivered) @ ''/''
       @ file_segment (generateObjectKey t delivered)
   \<and> folder_segment (generateObjectKey t delivered) = Format_20060102T150405 t
   \<and> (\<exists>date. folder_segment (generateObjectKey t delivered)
          = date @ ''T'' @ hhmmss (unix_nano t div 1000000000 + zone_offset t))
   \<and> folder_segment (generateObjectKey t delivered)
       = Format_20060102T150405
           (UTC (t\<lparr>unix_nano := unix_nano t + zone_offset t * 1000000000\<rparr>))
   \<and> (unix_nano t' div 1000000000 = unix_nano t div 1000000000
        \<and> zone_offset t' = zone_offset t \<longrightarrow>
        folder_segment (generateObjectKey t' delivered')
          = folder_segment (generateObjectKey t delivered))
   \<and> (zone_offset t = 0 \<longrightarrow>
        folder_segment (generateObjectKey t delivered) = Format_20060102T150405 (UTC t))
   \<and> (zone_offset t mod 86400 \<noteq> 0 \<longrightarrow>
        folder_segment (generateObjectKey t delivered) \<noteq> Format_20060102T150405 (UTC t))
   \<and> length (file_segment (generateObjectKey t delivered)) = 32
   \<and> set (file_segment (generateObjectKey t delivered)) \<subseteq> set ''0123456789abcdef''
   \<and> file_segment (generateObjectKey t delivered)
       = Sprintf_x (unhex (file_segment (generateObjectKey t delivered)))
   \<and> length (unhex (file_segment (generateObjectKey t delivered))) = 16
   \<and> (16 \<le> length delivered \<longrightarrow>
        unhex (file_segment (generateObjectKey t delivered)) = take 16 delivered)"
proof -
  let ?buf = "rand_Read delivered (make_bytes 16)"
  have key: "generateObjectKey t delivered
      = Format_20060102T150405 t @ ''/'' @ Sprintf_x (rand_Read delivered (make_bytes 16))"
    for t delivered
    by (simp add: generateObjectKey_def Let_def)
  have folder: "folder_segment (generateObjectKey t delivered) = Format_20060102T150405 t"
    for t delivered
    unfolding key using slash_Format by (rule folder_segment_append)
  have fseg: "file_segment (generateObjectKey t delivered) = Sprintf_x ?buf"
    unfolding key using slash_Format by (rule file_segment_append)
  have whole: "generateObjectKey t delivered
     = folder_segment (generateObjectKey t delivered) @ ''/''
       @ file_segment (generateObjectKey t delivered)"
    unfolding folder fseg by (rule key)
  have tod: "\<exists>date. folder_segment (generateObjectKey t delivered)
          = date @ ''T'' @ hhmmss (unix_nano t div 1000000000 + zone_offset t)"
    unfolding folder using Format_time_of_day [of t] by (simp add: unix_sec_def)
  have shifted: "folder_segment (generateObjectKey t delivered)
       = Format_20060102T150405
           (UTC (t\<lparr>unix_nano := unix_nano t + zone_offset t * 1000000000\<rparr>))"
    unfolding folder by (simp add: Format_20060102T150405_def UTC_def unix_sec_def add.commute)
  have second: "unix_nano t' div 1000000000 = unix_nano t div 1000000000
        \<and> zone_offset t' = zone_offset t \<longrightarrow>
        folder_segment (generateObjectKey t' delivered')
          = folder_segment (generateObjectKey t delivered)"
    unfolding folder by (simp add: Format_20060102T150405_def unix_sec_def)
  have utc: "zone_offset t = 0 \<longrightarrow>
        folder_segment (generateObjectKey t delivered) = Format_20060102T150405 (UTC t)"
    unfolding folder by (simp add: Format_20060102T150405_def UTC_def unix_sec_def)
  have local: "zone_offset t mod 86400 \<noteq> 0 \<longrightarrow>
        folder_segment (generateObjectKey t delivered) \<noteq> Format_20060102T150405 (UTC t)"
    unfolding folder using Format_differs by blast
  have len: "length (file_segment (generateObjectKey t delivered)) = 32"
    unfolding fseg by (simp add: length_Sprintf_x)
  have hex: "set (file_segment (generateObjectKey t delivered)) \<subseteq> set ''0123456789abcdef''"
    unfolding fseg by (rule set_Sprintf_x)
  have decode: "unhex (file_segment (generateObjectKey t delivered)) = ?buf"
    unfolding fseg by (rule unhex_Sprintf_x)
  have enc: "file_segment (generateObjectKey t delivered)
      = Sprintf_x (unhex (file_segment (generateObjectKey t delivered)))"
    by (simp only: fseg unhex_Sprintf_x)
  have sixteen: "length (unhex (file_segment (generateObjectKey t delivered))) = 16"
    unfolding decode by simp
  have random: "16 \<le> length delivered \<longrightarrow>
        unhex (file_segment (generateObjectKey t delivered)) = take 16 delivered"
    unfolding decode by (simp add: rand_Read_def)
  from whole folder tod shifted second utc local len hex enc sixteen random
  show ?thesis by (intro conjI)
qed

theorem generateObjectKey_local_time_witness:
  "zone_offset \<lparr>unix_nano = 1755040800000000000, zone_offset = 7200\<rparr> mod 86400 \<noteq> 0
   \<and> generateObjectKey \<lparr>unix_nano = 1755040800000000000, zone_offset = 7200\<rparr>
         (replicate 16 171)
       = ''20250813T012000/abababababababababababababababab''
   \<and> folder_segment (generateObjectKey \<lparr>unix_nano = 1755040800000000000, zone_offset = 7200\<rparr>
         (replicate 16 171)) = ''20250813T012000''
   \<and> Format_20060102T150405 (UTC \<lparr>unix_nano = 1755040800000000000, zone_offset = 7200\<rparr>)
       = ''20250812T232000''
   \<and> folder_segment (generateObjectKey \<lparr>unix_nano = 1755040800000000000, zone_offset = 7200\<rparr>
         (replicate 16 171))
       \<noteq> Format_20060102T150405 (UTC \<lparr>unix_nano = 1755040800000000000, zone_offset = 7200\<rparr>)
   \<and> (16::nat) \<le> length (replicate 16 (171::byte))
   \<and> unhex (file_segment (generateObjectKey
         \<lparr>unix_nano = 1755040800000000000, zone_offset = 7200\<rparr> (replicate 16 171)))
       = replicate 16 171
   \<and> unix_nano \<lparr>unix_nano = 1755040800999999999, zone_offset = 7200\<rparr> div 1000000000
       = unix_nano \<lparr>unix_nano = 1755040800000000000, zone_offset = 7200\<rparr> div 1000000000
   \<and> folder_segment (generateObjectKey \<lparr>unix_nano = 1755040800999999999, zone_offset = 7200\<rparr> [])
       = ''20250813T012000''
   \<and> zone_offset \<lparr>unix_nano = 0, zone_offset = 0\<rparr> = 0
   \<and> folder_segment (generateObjectKey \<lparr>unix_nano = 0, zone_offset = 0\<rparr> [])
       = Format_20060102T150405 (UTC \<lparr>unix_nano = 0, zone_offset = 0\<rparr>)"
proof -
  let ?t = "\<lparr>unix_nano = 1755040800000000000, zone_offset = 7200\<rparr>"
  let ?t' = "\<lparr>unix_nano = 1755040800999999999, zone_offset = 7200\<rparr>"
  let ?z = "\<lparr>unix_nano = 0, zone_offset = 0\<rparr>"
  let ?d = "replicate 16 (171::byte)"
  have key: "generateObjectKey ?t ?d = ''20250813T012000/abababababababababababababababab''"
    by code_simp
  have local: "Format_20060102T150405 ?t = ''20250813T012000''"
    by code_simp
  have utc: "Format_20060102T150405 (UTC ?t) = ''20250812T232000''"
    by code_simp
  have east: "zone_offset ?t mod 86400 \<noteq> 0"
    and sec: "unix_nano ?t' div 1000000000 = unix_nano ?t div 1000000000
      \<and> zone_offset ?t' = zone_offset ?t"
    and zero: "zone_offset ?z = 0"
    and many: "16 \<le> length ?d"
    by simp_all
  from generateObjectKey_local_time [of ?t ?d ?t' "[]"] east sec many
  have "folder_segment (generateObjectKey ?t ?d) = Format_20060102T150405 ?t"
    "folder_segment (generateObjectKey ?t ?d) \<noteq> Format_20060102T150405 (UTC ?t)"
    "unhex (file_segment (generateObjectKey ?t ?d)) = take 16 ?d"
    "folder_segment (generateObjectKey ?t' []) = folder_segment (generateObjectKey ?t ?d)"
    by blast+
  moreover from generateObjectKey_local_time [of ?z "[]"] zero
  have "folder_segment (generateObjectKey ?z []) = Format_20060102T150405 (UTC ?z)"
    by blast
  ultimately show ?thesis using key local utc by simp
qed

text \<open>
  C10. When godotenv.Load fails (no loadable .env file in the working directory), main
  exits through log.Fatal right away: it has read no environment variable and has not
  created the storage client, whatever the environment already holds.
\<close>

theorem main_without_dotenv:
  "dotenv os = Inl errDot \<Longrightarrow>
   main os = ([Ev_Load], Fatal ''Error loading .env file'')
   \<and> Ev_NewClient \<notin> set (fst (main os))
   \<and> (\<forall>key. Ev_Getenv key \<notin> set (fst (main os)))"
  by (simp add: main_def)

theorem main_without_dotenv_witness:
  "dotenv \<lparr>dotenv = Inl ''open .env: no such file or directory'',
           environ = [''GCS_BUCKET_NAME'' \<mapsto> ''my-bucket'', ''PORT'' \<mapsto> ''9090''],
           NewClient_err = None, ListenAndServe_err = None\<rparr>
     = Inl ''open .env: no such file or directory''
   \<and> main \<lparr>dotenv = Inl ''open .env: no such file or directory'',
           environ = [''GCS_BUCKET_NAME'' \<mapsto> ''my-bucket'', ''PORT'' \<mapsto> ''9090''],
           NewClient_err = None, ListenAndServe_err = None\<rparr>
     = ([Ev_Load], Fatal ''Error loading .env file'')"
  using main_without_dotenv
    [of "\<lparr>dotenv = Inl ''open .env: no such file or directory'',
           environ = [''GCS_BUCKET_NAME'' \<mapsto> ''my-bucket'', ''PORT'' \<mapsto> ''9090''],
           NewClient_err = None, ListenAndServe_err = None\<rparr>"
        "''open .env: no such file or directory''"]
  by simp

lemma main_serving_example:
  "main \<lparr>dotenv = Inr Map.empty,
           environ = [''GCS_BUCKET_NAME'' \<mapsto> ''my-bucket''],
           NewClient_err = None, ListenAndServe_err = None\<rparr>
     = ([Ev_Load, Ev_Getenv ''GCS_BUCKET_NAME'',
         Ev_Println ''Starting server and writing to  my-bucket'', Ev_NewClient,
         Ev_Getenv ''GCS_BUCKET_NAME'', Ev_HandleFunc ''/'', Ev_Getenv ''PORT'',
         Ev_Printf ''Starting server on port 8080'', Ev_ListenAndServe '':8080''],
        Serving '':8080'')"
  by (simp add: main_def Getenv_def Let_def)

text \<open>
  C1. For every request with count greater than 0, the response that the handler writes
  satisfies objects_written + |errors| = count: objects_written is count minus the number
  of collected failure messages, the errors are exactly the messages the goroutines have
  sent, and objects_written is the number of goroutines that sent none, for every
  assignment of write and close failures to the goroutines and every interleaving.
\<close>

theorem objects_written_plus_errors:
  assumes "reachable e t0 s" "validate (r e) = Inr p" "mpc s = Returned"
  shows "0 < Number p
    \<and> (\<exists>code resp. w s = Some \<lparr>status = code, body = Json resp\<rparr>
         \<and> Errors resp = errorMessages s
         \<and> ObjectsWritten resp = Number p - int (length (errorMessages s))
         \<and> ObjectsWritten resp + int (length (Errors resp)) = Number p
         \<and> mset (Errors resp) = mset (sent_msgs (tasks s))
         \<and> ObjectsWritten resp = int (length (filter (\<lambda>t. t_sent t = []) (tasks s))))
    \<and> int (length (tasks s)) = Number p
    \<and> (\<forall>k<length (tasks s).
          t_sent (tasks s ! k) = outcome (backend e k) (objectKey (tasks s ! k)))"
proof -
  from assms(1) have inv: "handler_inv e s" by (rule reachable_inv)
  note ret = returned_accepted [OF inv assms(3,2)]
  from inv ret(4) have msgs: "mset (errorMessages s) = mset (sent_msgs (tasks s))"
    by (simp add: handler_inv_def)
  then have "size (mset (errorMessages s)) = size (mset (sent_msgs (tasks s)))" by simp
  then have len: "length (errorMessages s) = length (sent_msgs (tasks s))" by simp
  have "length (sent_msgs (tasks s)) + length (filter (\<lambda>t. t_sent t = []) (tasks s))
      = length (tasks s)"
    using inv_sent_le1 [OF inv] by (rule sent_msgs_count)
  with len ret(2) have count: "Number p - int (length (errorMessages s))
      = int (length (filter (\<lambda>t. t_sent t = []) (tasks s)))"
    by linarith
  have fin: "\<forall>t\<in>set (tasks s). t_pc t = Finished"
    using inv ret(3) by (rule all_finished)
  have out: "\<forall>k<length (tasks s).
      t_sent (tasks s ! k) = outcome (backend e k) (objectKey (tasks s ! k))"
  proof (intro allI impI)
    fix k assume k: "k < length (tasks s)"
    with fin have "t_pc (tasks s ! k) = Finished" by simp
    with inv k show "t_sent (tasks s ! k) = outcome (backend e k) (objectKey (tasks s ! k))"
      by (rule finished_outcome)
  qed
  from assms(2) have "0 < Number p" by (rule validate_pos)
  moreover have "\<exists>code resp. w s = Some \<lparr>status = code, body = Json resp\<rparr>
         \<and> Errors resp = errorMessages s
         \<and> ObjectsWritten resp = Number p - int (length (errorMessages s))
         \<and> ObjectsWritten resp + int (length (Errors resp)) = Number p
         \<and> mset (Errors resp) = mset (sent_msgs (tasks s))
         \<and> ObjectsWritten resp = int (length (filter (\<lambda>t. t_sent t = []) (tasks s)))"
    using ret(7) msgs count by (simp add: respond_def Let_def)
  ultimately show ?thesis using ret(2) out by blast
qed

theorem objects_written_plus_errors_witness:
  "reachable demo_env 100 demo_final
   \<and> validate (r demo_env) = Inr \<lparr>Number = 2\<rparr>
   \<and> mpc demo_final = Returned
   \<and> (\<exists>code resp. w demo_final = Some \<lparr>status = code, body = Json resp\<rparr>
         \<and> ObjectsWritten resp = 1 \<and> length (Errors resp) = 1
         \<and> ObjectsWritten resp + int (length (Errors resp)) = 2)
   \<and> length (tasks demo_final) = 2"
proof -
  have "length (errorMessages demo_final) = 1"
    by (simp add: demo_final_def run_simps)
  with objects_written_plus_errors [OF demo_reachable demo_validate demo_final_mpc]
    demo_reachable demo_validate demo_final_mpc
  show ?thesis by auto
qed




text \<open>
  C7. A request rejected for its shape (a method other than POST, a body that does not
  decode, a count that is not positive) is answered in the handler's first step and the
  handler has then returned: no goroutine has been started, nothing has been read from the
  random source, no bucket handle and no writer has been created, no storage call made.
\<close>

theorem rejected_before_storage_work:
  assumes "reachable e t0 s"
    "Method (r e) \<noteq> ''POST'' \<or> (\<exists>err. Decode (r e) = Inl err)
      \<or> (\<exists>p. Decode (r e) = Inr p \<and> Number p \<le> 0)"
  shows "tasks s = [] \<and> effects s = [] \<and> errs s = []
    \<and> (mpc s = Validate \<or> mpc s = Returned)
    \<and> (mpc s = Validate \<longrightarrow>
          (\<forall>dt. \<exists>s'. step e Main dt s = Some s' \<and> mpc s' = Returned))
    \<and> (mpc s = Returned \<longrightarrow>
          (\<exists>resp. w s = Some resp \<and> (status resp = 405 \<or> status resp = 400))
          \<and> (\<forall>th dt. step e th dt s = None))"
proof -
  from assms(1) have inv: "handler_inv e s" by (rule reachable_inv)
  from assms(2) obtain resp where resp: "validate (r e) = Inl resp"
    using rejected_validate by blast
  then have st: "status resp = 405 \<or> status resp = 400"
    using validate_Inl [of "r e" resp] by (auto split: if_splits)
  from inv resp have pc: "mpc s = Validate \<or> mpc s = Returned"
    by (cases "mpc s") (simp_all add: handler_inv_def inv_ctl_def)
  then have empty: "tasks s = [] \<and> effects s = [] \<and> errs s = []"
  proof
    assume "mpc s = Validate"
    with inv show ?thesis by (simp add: handler_inv_def inv_ctl_def)
  next
    assume "mpc s = Returned"
    with inv resp show ?thesis using returned_rejected by blast
  qed
  have first: "\<exists>s'. step e Main dt s = Some s' \<and> mpc s' = Returned" if "mpc s = Validate" for dt
  proof -
    from inv that have "\<not> panicked s" by (auto simp: handler_inv_def inv_ctl_def)
    with that resp show ?thesis by (simp add: step_Main main_step_def)
  qed
  have last: "(\<exists>resp. w s = Some resp \<and> (status resp = 405 \<or> status resp = 400))
      \<and> (\<forall>th dt. step e th dt s = None)" if "mpc s = Returned"
  proof -
    from inv that resp have "w s = Some resp" by (rule returned_rejected)
    moreover from empty that have "step e th dt s = None" for th dt
      by (intro no_step_when_returned) simp_all
    ultimately show ?thesis using st by blast
  qed
  from empty pc first last show ?thesis by blast
qed

theorem rejected_before_storage_work_witness:
  "reachable demo_rejected 0 demo_answered
   \<and> Decode (r demo_rejected) = Inr \<lparr>Number = 0\<rparr> \<and> Number \<lparr>Number = 0\<rparr> \<le> 0
   \<and> mpc demo_answered = Returned
   \<and> tasks demo_answered = [] \<and> effects demo_answered = []
   \<and> (\<exists>resp. w demo_answered = Some resp \<and> status resp = 400)"
proof -
  have dec: "Decode (r demo_rejected) = Inr \<lparr>Number = 0\<rparr>"
    by (simp add: demo_rejected_def)
  then have hyp: "Method (r demo_rejected) \<noteq> ''POST'' \<or> (\<exists>err. Decode (r demo_rejected) = Inl err)
      \<or> (\<exists>p. Decode (r demo_rejected) = Inr p \<and> Number p \<le> 0)"
    by simp
  have pc: "mpc demo_answered = Returned"
    by (simp add: demo_answered_def run_def step_Main main_step_def init_def
        demo_rejected_validate)
  have "w demo_answered
      = Some \<lparr>status = 400, body = Text ''The 'number' value must be a positive integer''\<rparr>"
    by (simp add: demo_answered_def run_def step_Main main_step_def init_def
        demo_rejected_validate)
  with rejected_before_storage_work [OF demo_answered_reachable hyp]
    demo_answered_reachable dec pc
  show ?thesis by simp
qed




text \<open>
  C5, as stated: the reported elapsed time runs from just before the tasks are dispatched
  to just after every outcome has been collected. The handler reads the clock the second
  time (\<^verbatim>\<open>time.Since(startTime)\<close>) after \<^verbatim>\<open>wg.Wait()\<close> and \<^verbatim>\<open>close(errs)\<close> and before the loop
  that collects the messages from the channel: in the run below the measured interval is
  from 102 to 115, 13 clock units, which the response reports, and the one failure message
  is collected at 122.
\<close>

theorem time_taken_collection_counterexample:
  "reachable demo_env 100 demo_final
   \<and> mpc demo_final = Returned
   \<and> startTime demo_final = 102
   \<and> timeTaken demo_final = 13
   \<and> length (errorMessages demo_final) = 1
   \<and> collected_at demo_final = [122]
   \<and> startTime demo_final + timeTaken demo_final < hd (collected_at demo_final)"
  using demo_reachable demo_final_mpc
  by (simp add: demo_final_def run_simps)

text \<open>
  C5, amended: the reported elapsed time runs from a clock reading taken before any
  goroutine is started to a reading taken when every goroutine has finished and before any
  outcome is collected from the channel: every goroutine's steps, the send of its error
  and its final wg.Done among them, lie between the two readings, every message is
  collected at or after the second reading, and the duration the response reports is the
  difference of the two readings.
\<close>

theorem time_taken_ends_before_collection:
  assumes "reachable e t0 s"
  shows "(\<forall>t\<in>set (tasks s). startTime s \<le> t_at t \<and> t_at t \<le> clock s)
    \<and> length (collected_at s) = length (errorMessages s)
    \<and> (\<forall>c\<in>set (collected_at s). startTime s + timeTaken s \<le> c \<and> c \<le> clock s)
    \<and> (collected_at s \<noteq> [] \<longrightarrow> mpc s = RangeErrs \<or> mpc s = Respond \<or> mpc s = Returned)
    \<and> (validate (r e) = Inr p \<and> (mpc s = RangeErrs \<or> mpc s = Respond \<or> mpc s = Returned) \<longrightarrow>
          0 \<le> timeTaken s \<and> startTime s + timeTaken s \<le> clock s
          \<and> int (length (tasks s)) = Number p
          \<and> (\<forall>t\<in>set (tasks s). t_pc t = Finished \<and> startTime s \<le> t_at t
                \<and> t_at t \<le> startTime s + timeTaken s)
          \<and> mset (errs s) + mset (errorMessages s) = mset (sent_msgs (tasks s)))
    \<and> (validate (r e) = Inr p \<and> mpc s = Returned \<longrightarrow>
          (\<exists>code resp. w s = Some \<lparr>status = code, body = Json resp\<rparr>
             \<and> TimeTaken resp = timeTaken s))"
proof -
  from assms have inv: "handler_inv e s" by (rule reachable_inv)
  then have time: "inv_time s" by (simp add: handler_inv_def)
  then have during: "\<forall>t\<in>set (tasks s). startTime s \<le> t_at t \<and> t_at t \<le> clock s"
    by (simp add: inv_time_def)
  have count: "length (collected_at s) = length (errorMessages s)"
    using inv by (simp add: handler_inv_def inv_ctl_def)
  have coll: "\<forall>c\<in>set (collected_at s). startTime s + timeTaken s \<le> c \<and> c \<le> clock s"
    using time by (simp add: inv_time_def)
  have late: "collected_at s \<noteq> [] \<longrightarrow> mpc s = RangeErrs \<or> mpc s = Respond \<or> mpc s = Returned"
  proof
    assume "collected_at s \<noteq> []"
    with count have "errorMessages s \<noteq> []" by auto
    with inv show "mpc s = RangeErrs \<or> mpc s = Respond \<or> mpc s = Returned"
      by (cases "mpc s") (simp_all add: handler_inv_def inv_ctl_def)
  qed
  have after: "0 \<le> timeTaken s \<and> startTime s + timeTaken s \<le> clock s
          \<and> int (length (tasks s)) = Number p
          \<and> (\<forall>t\<in>set (tasks s). t_pc t = Finished \<and> startTime s \<le> t_at t
                \<and> t_at t \<le> startTime s + timeTaken s)
          \<and> mset (errs s) + mset (errorMessages s) = mset (sent_msgs (tasks s))"
    if acc: "validate (r e) = Inr p"
      and pc: "mpc s = RangeErrs \<or> mpc s = Respond \<or> mpc s = Returned"
  proof -
    from acc have pos: "0 < Number p" by (rule validate_pos)
    from inv have ctl: "inv_ctl e s" by (simp add: handler_inv_def)
    have facts: "int (length (tasks s)) = Number p \<and> wg s = 0"
      using ctl acc pc by (cases "mpc s") (simp_all add: inv_ctl_def)
    with pos have "tasks s \<noteq> []" by auto
    with pc have "mpc s \<in> {RangeErrs, Respond} \<or> mpc s = Returned \<and> tasks s \<noteq> []"
      by blast
    with time have "0 \<le> timeTaken s \<and> startTime s + timeTaken s \<le> clock s \<and>
        (\<forall>t\<in>set (tasks s). t_at t \<le> startTime s + timeTaken s)"
      unfolding inv_time_def by blast
    then have "0 \<le> timeTaken s" "startTime s + timeTaken s \<le> clock s"
      "\<forall>t\<in>set (tasks s). t_at t \<le> startTime s + timeTaken s"
      by blast+
    moreover from facts have "wg s = 0" by simp
    with inv have "\<forall>t\<in>set (tasks s). t_pc t = Finished"
      by (rule all_finished)
    moreover from inv have "mset (errs s) + mset (errorMessages s) = mset (sent_msgs (tasks s))"
      by (simp add: handler_inv_def)
    ultimately show ?thesis using during facts by simp
  qed
  have reported: "\<exists>code resp. w s = Some \<lparr>status = code, body = Json resp\<rparr>
      \<and> TimeTaken resp = timeTaken s"
    if "validate (r e) = Inr p" "mpc s = Returned"
    using returned_accepted(7) [OF inv that(2,1)] by (simp add: respond_def Let_def)
  from during count coll late after reported show ?thesis by blast
qed

theorem time_taken_ends_before_collection_witness:
  "reachable demo_env 100 demo_final
   \<and> validate (r demo_env) = Inr \<lparr>Number = 2\<rparr> \<and> mpc demo_final = Returned
   \<and> startTime demo_final = 102 \<and> timeTaken demo_final = 13
   \<and> map t_at (tasks demo_final) = [112, 115]
   \<and> map t_pc (tasks demo_final) = [Finished, Finished]
   \<and> collected_at demo_final = [122] \<and> clock demo_final = 122
   \<and> length (errorMessages demo_final) = 1
   \<and> (\<exists>code resp. w demo_final = Some \<lparr>status = code, body = Json resp\<rparr>
         \<and> TimeTaken resp = 13)"
proof -
  have vals: "startTime demo_final = 102" "timeTaken demo_final = 13"
    "map t_at (tasks demo_final) = [112, 115]"
    "collected_at demo_final = [122]" "clock demo_final = 122"
    by (simp_all add: demo_final_def run_simps)
  from time_taken_ends_before_collection [OF demo_reachable, of "\<lparr>Number = 2\<rparr>"]
    demo_reachable demo_validate demo_final_mpc demo_final_pcs vals
  show ?thesis by simp
qed

text \<open>
  C6. Every write goroutine sends at most one error. When it has finished: if the write
  failed it has sent exactly one message, which names the object key and the write error,
  and has closed the writer once, whatever that close returned; if the write succeeded and
  the close failed it has sent exactly one message, which names the key and the close
  error; if both succeeded it has sent nothing. A failed write is reported before the
  best-effort close. Every goroutine that has been started does finish.
\<close>

theorem write_task_reports_once:
  assumes "reachable e t0 s" "k < length (tasks s)"
  shows "length (t_sent (tasks s ! k)) \<le> 1
    \<and> (t_pc (tasks s ! k) = Finished \<longrightarrow>
          t_closes (tasks s ! k) = 1
          \<and> t_sent (tasks s ! k) =
              (case WriteString_err (backend e k) of
                 Some err \<Rightarrow>
                   [''failed to write to GCS object '' @ objectKey (tasks s ! k) @ '': '' @ err]
               | None \<Rightarrow>
                   (case Close_err (backend e k) of
                      Some err \<Rightarrow>
                        [''failed to close GCS object writer for '' @ objectKey (tasks s ! k)
                           @ '': '' @ err]
                    | None \<Rightarrow> [])))
    \<and> (t_pc (tasks s ! k) = BestEffortClose \<longrightarrow>
          t_closes (tasks s ! k) = 0
          \<and> (\<exists>err. WriteString_err (backend e k) = Some err
                \<and> t_sent (tasks s ! k)
                    = [''failed to write to GCS object '' @ objectKey (tasks s ! k) @ '': '' @ err]))
    \<and> (\<exists>sched s'. exec e sched s = Some s' \<and> k < length (tasks s')
          \<and> t_pc (tasks s' ! k) = Finished)"
proof -
  from assms(1) have inv: "handler_inv e s" by (rule reachable_inv)
  with assms(2) have ok: "task_ok (backend e k) (tasks s ! k)"
    by (simp add: handler_inv_def)
  then have one: "length (t_sent (tasks s ! k)) \<le> 1" by (rule task_ok_sent_length)
  have fin: "t_closes (tasks s ! k) = 1
      \<and> t_sent (tasks s ! k) =
          (case WriteString_err (backend e k) of
             Some err \<Rightarrow>
               [''failed to write to GCS object '' @ objectKey (tasks s ! k) @ '': '' @ err]
           | None \<Rightarrow>
               (case Close_err (backend e k) of
                  Some err \<Rightarrow>
                    [''failed to close GCS object writer for '' @ objectKey (tasks s ! k)
                       @ '': '' @ err]
                | None \<Rightarrow> []))"
    if "t_pc (tasks s ! k) = Finished"
    using finished_outcome [OF inv assms(2) that]
    by (simp add: outcome_def msg_write_def msg_close_def split: option.splits)
  have mid: "t_closes (tasks s ! k) = 0
      \<and> (\<exists>err. WriteString_err (backend e k) = Some err
            \<and> t_sent (tasks s ! k)
                = [''failed to write to GCS object '' @ objectKey (tasks s ! k) @ '': '' @ err])"
    if "t_pc (tasks s ! k) = BestEffortClose"
    using ok that by (auto simp: task_ok_def outcome_def msg_write_def)
  from assms(2) have "tasks s \<noteq> []" by auto
  with inv have "within_limit e" by (rule tasks_within)
  from can_finish [OF inv this] obtain sched s' where run: "exec e sched s = Some s'"
    "length (tasks s) \<le> length (tasks s')" "\<forall>t\<in>set (tasks s'). t_pc t = Finished"
    by blast
  from run(2) assms(2) have k': "k < length (tasks s')" by simp
  with run(3) have "t_pc (tasks s' ! k) = Finished" by simp
  with run(1) k' have "\<exists>sched s'. exec e sched s = Some s' \<and> k < length (tasks s')
      \<and> t_pc (tasks s' ! k) = Finished" by blast
  with one fin mid show ?thesis by blast
qed

theorem write_task_reports_once_witness:
  "reachable demo_all_fail 100 demo_fail_final \<and> (0::nat) < length (tasks demo_fail_final)
   \<and> t_pc (tasks demo_fail_final ! 0) = Finished
   \<and> WriteString_err (backend demo_all_fail 0) = Some ''boom''
   \<and> Close_err (backend demo_all_fail 0) = Some ''late''
   \<and> t_closes (tasks demo_fail_final ! 0) = 1
   \<and> t_sent (tasks demo_fail_final ! 0)
       = [''failed to write to GCS object '' @ objectKey (tasks demo_fail_final ! 0) @ '': boom'']"
proof -
  obtain t1 t2 where ts: "tasks demo_fail_final = [t1, t2]" "t_pc t1 = Finished"
    using demo_fail_pcs by (auto simp: map_eq_Cons_conv)
  then have k: "0 < length (tasks demo_fail_final)" "t_pc (tasks demo_fail_final ! 0) = Finished"
    by simp_all
  have err: "WriteString_err (backend demo_all_fail 0) = Some ''boom''"
    "Close_err (backend demo_all_fail 0) = Some ''late''"
    by (simp_all add: demo_all_fail_def)
  from write_task_reports_once [OF demo_fail_reachable k(1)] k err demo_fail_reachable
  show ?thesis by simp
qed

end
